theory Spec2Isabelle
  imports Main "HOL-Library.Word"
begin

section \<open>Buffers\<close>

text \<open>
  A Node \<open>Buffer\<close> is a sequence of octets. Multi-byte integers on the wire are
  little-endian. The accessors \<open>readUInt8\<close>, \<open>readUInt16LE\<close>, \<open>readUInt32LE\<close> and
  \<open>readInt32LE\<close> throw a \<open>RangeError\<close> when the bytes they need lie outside the
  buffer; \<open>slice\<close> (here \<open>slice_buf\<close>) clamps silently.
\<close>

type_synonym byte = "8 word"

text \<open>
  What can be thrown: a \<open>TypeError\<close>; the \<open>RangeError\<close> of a buffer access or of a value
  that does not fit; the \<open>RangeError\<close> with the message \<open>Invalid array length\<close>; and
  the \<open>Error\<close> of \<open>sendMessage\<close> and \<open>readMessage\<close> on a client that is not connected.
\<close>

datatype error = TypeError | RangeError | InvalidArrayLength | NotConnected

fun le_nat :: "byte list \<Rightarrow> nat" where
  "le_nat [] = 0"
| "le_nat (b # bs) = unat b + 256 * le_nat bs"

fun le_bytes :: "nat \<Rightarrow> nat \<Rightarrow> byte list" where
  "le_bytes 0 v = []"
| "le_bytes (Suc k) v = of_nat v # le_bytes k (v div 256)"

definition slice_buf :: "'a list \<Rightarrow> nat \<Rightarrow> nat \<Rightarrow> 'a list" where
  "slice_buf buf a b = take (b - a) (drop a buf)"

definition readUInt8 :: "byte list \<Rightarrow> nat \<Rightarrow> error + nat" where
  "readUInt8 buf off =
     (if off + 1 \<le> length buf then Inr (le_nat (slice_buf buf off (off + 1))) else Inl RangeError)"

definition readUInt16LE :: "byte list \<Rightarrow> nat \<Rightarrow> error + nat" where
  "readUInt16LE buf off =
     (if off + 2 \<le> length buf then Inr (le_nat (slice_buf buf off (off + 2))) else Inl RangeError)"

definition readUInt32LE :: "byte list \<Rightarrow> nat \<Rightarrow> error + nat" where
  "readUInt32LE buf off =
     (if off + 4 \<le> length buf then Inr (le_nat (slice_buf buf off (off + 4))) else Inl RangeError)"

definition readInt32LE :: "byte list \<Rightarrow> nat \<Rightarrow> error + int" where
  "readInt32LE buf off =
     (if off + 4 \<le> length buf
      then (let u = le_nat (slice_buf buf off (off + 4))
            in Inr (if u < 2 ^ 31 then int u else int u - 2 ^ 32))
      else Inl RangeError)"

definition bind_err :: "error + 'a \<Rightarrow> ('a \<Rightarrow> error + 'b) \<Rightarrow> error + 'b" where
  "bind_err m f = (case m of Inl e \<Rightarrow> Inl e | Inr x \<Rightarrow> f x)"

section \<open>The client\<close>

text \<open>
  \<open>utils.command\<close> is the table of numeric command identifiers. The module that defines
  it is not among the sources, so the table is a parameter of every operation that
  consults it.
\<close>

record command =
  requestProtocolVersion :: nat
  setClientName :: nat
  deviceListUpdated :: nat
  updateMode :: nat
  saveMode :: nat

text \<open>
  An entry of \<open>Client.resolver\<close>. The \<open>resolve\<close> callback of the promise created in
  \<open>readMessage\<close> is represented by a number that identifies the promise; \<open>header\<close> is
  the scratch field the \<open>readable\<close> handler assigns on the first entry.
\<close>

record ResolveObject =
  commandId :: nat
  deviceId :: nat
  header :: "byte list option"
  resolveFn :: nat

text \<open>What the client does that its environment can observe, in order.\<close>

datatype event =
    Emit string
  | Fulfilled nat "byte list"
  | Written "byte list"
  | Ended

text \<open>
  An optional numeric property of a JavaScript object: the key is absent, or present
  with the value \<open>undefined\<close>, or present with a number.
\<close>

datatype jsfield = Absent | Undefined | Number int

record Settings =
  forceProtocolVersion :: jsfield

text \<open>
  The fields of \<open>Client\<close> (\<open>port\<close> and \<open>host\<close> play no part in what follows).
  \<open>name\<close> is the client's name as the bytes \<open>TextEncoder.encode\<close> yields for it;
  \<open>socket\<close> tells whether \<open>this.socket\<close> has been assigned;
  \<open>rx\<close> holds the bytes the socket has received and \<open>read\<close> has not handed out yet;
  \<open>events\<close> is the trace of observable effects; \<open>promises\<close> counts the promises
  \<open>readMessage\<close> has created. \<open>protocolVersion\<close> is \<open>None\<close> while it is \<open>undefined\<close>.
\<close>

record Client =
  name :: "byte list"
  isConnected :: bool
  protocolVersion :: "int option"
  settings :: Settings
  resolver :: "ResolveObject list"
  currentPacketLength :: nat
  socket :: bool
  rx :: "byte list"
  events :: "event list"
  promises :: nat

definition HEADER_SIZE :: nat where
  "HEADER_SIZE = 16"

definition CLIENT_PROTOCOL_VERSION :: int where
  "CLIENT_PROTOCOL_VERSION = 5"

text \<open>The magic \<open>ORGB\<close>: \<open>Buffer.from([0x4f, 0x52, 0x47, 0x42])\<close>.\<close>

definition magic :: "byte list" where
  "magic = [0x4f, 0x52, 0x47, 0x42]"

text \<open>
  \<open>socket.read(n)\<close> on a stream that has not ended: the first \<open>n\<close> buffered bytes,
  which are then removed from the buffer, or \<open>null\<close> when fewer than \<open>n\<close> are buffered
  (and for \<open>n = 0\<close>). Asked for more than 1 GiB, the stream throws a \<open>RangeError\<close>
  before it looks at its buffer.
\<close>

definition socket_read :: "nat \<Rightarrow> byte list \<Rightarrow> error + (byte list \<times> byte list) option" where
  "socket_read n buf =
     (if 2 ^ 30 < n then Inl RangeError
      else if 0 < n \<and> n \<le> length buf then Inr (Some (take n buf, drop n buf))
      else Inr None)"

fun findIndex :: "('a \<Rightarrow> bool) \<Rightarrow> 'a list \<Rightarrow> nat option" where
  "findIndex P [] = None"
| "findIndex P (x # xs) = (if P x then Some 0 else map_option Suc (findIndex P xs))"

definition decodeHeader :: "byte list \<Rightarrow> error + (nat \<times> nat \<times> nat)" where
  "decodeHeader buffer =
     bind_err (readUInt32LE buffer 4) (\<lambda>dev.
     bind_err (readUInt32LE buffer 8) (\<lambda>cid.
     bind_err (readUInt32LE buffer 12) (\<lambda>len.
       Inr (dev, cid, len))))"

text \<open>
  \<open>resolve\<close>: a packet with the identifier \<open>deviceListUpdated\<close> is announced as an
  event. Any other packet fulfils the first entry of the queue with the same device
  and command identifiers, which leaves the queue, with the bytes after the header.
\<close>

definition resolve :: "command \<Rightarrow> Client \<Rightarrow> byte list \<Rightarrow> error + Client" where
  "resolve cmd s buffer =
     bind_err (decodeHeader buffer) (\<lambda>(dev, cid, len).
       if cid = deviceListUpdated cmd
       then Inr (s\<lparr>events := events s @ [Emit ''deviceListUpdated'']\<rparr>)
       else if resolver s \<noteq> []
       then (case findIndex (\<lambda>r. deviceId r = dev \<and> commandId r = cid) (resolver s) of
               None \<Rightarrow> Inr s
             | Some i \<Rightarrow>
                 Inr (s\<lparr>resolver := take i (resolver s) @ drop (Suc i) (resolver s),
                        events := events s @
                          [Fulfilled (resolveFn (resolver s ! i)) (drop 16 buffer)]\<rparr>))
       else Inr s)"

section \<open>The handler of the socket's readable event\<close>

text \<open>
  One pass through the body of the \<open>while (true)\<close> loop either returns from the
  handler, throws, or reaches the end of the body and starts the next pass.
\<close>

datatype 'a pass = Return 'a | Throw error | Continue 'a

text \<open>The first \<open>if\<close> of the loop body: read a header when no payload is awaited.\<close>

definition header_step :: "command \<Rightarrow> Client \<Rightarrow> Client pass" where
  "header_step cmd s =
     (if currentPacketLength s = 0 then
        (case socket_read HEADER_SIZE (rx s) of
           Inl e \<Rightarrow> Throw e
         | Inr None \<Rightarrow> Return s
         | Inr (Some (hdr, rest)) \<Rightarrow>
             if slice_buf hdr 0 4 \<noteq> magic then Return (s\<lparr>rx := rest\<rparr>)
             else
               (case readUInt32LE hdr 12 of
                  Inl e \<Rightarrow> Throw e
                | Inr len \<Rightarrow>
                    (let s1 = s\<lparr>rx := rest, currentPacketLength := len\<rparr> in
                     if 0 < len then
                       (case resolver s1 of
                          [] \<Rightarrow> Continue s1
                        | r # rs \<Rightarrow> Continue (s1\<lparr>resolver := r\<lparr>header := Some hdr\<rparr> # rs\<rparr>))
                     else if resolver s1 \<noteq> [] then
                       (case resolve cmd s1 hdr of
                          Inl e \<Rightarrow> Throw e
                        | Inr s2 \<Rightarrow> Continue s2)
                     else Continue s1)))
      else Continue s)"

text \<open>The second \<open>if\<close> of the loop body: read the payload that is awaited.\<close>

definition payload_step :: "command \<Rightarrow> Client \<Rightarrow> Client pass" where
  "payload_step cmd s =
     (if 0 < currentPacketLength s then
        (case socket_read (currentPacketLength s) (rx s) of
           Inl e \<Rightarrow> Throw e
         | Inr None \<Rightarrow> Return s
         | Inr (Some (res, rest)) \<Rightarrow>
             (let s1 = s\<lparr>rx := rest, currentPacketLength := 0\<rparr> in
              case resolver s1 of
                [] \<Rightarrow> Continue s1
              | r # rs \<Rightarrow>
                  (case header r of
                     None \<Rightarrow> Throw TypeError
                   | Some hdr \<Rightarrow>
                       (case resolve cmd s1 (hdr @ res) of
                          Inl e \<Rightarrow> Throw e
                        | Inr s2 \<Rightarrow> Continue s2))))
      else Continue s)"

lemma resolve_rx: "resolve cmd s buffer = Inr t \<Longrightarrow> rx t = rx s"
  by (auto simp: resolve_def bind_err_def split: sum.splits prod.splits if_splits option.splits)

lemma header_step_rx:
  "header_step cmd s = Continue t \<Longrightarrow>
     (currentPacketLength s = 0 \<and> length (rx t) < length (rx s)) \<or>
     (0 < currentPacketLength s \<and> t = s)"
  by (auto simp: header_step_def socket_read_def HEADER_SIZE_def Let_def
      dest!: resolve_rx split: if_splits option.splits sum.splits list.splits)

lemma payload_step_rx:
  "payload_step cmd s = Continue t \<Longrightarrow>
     (0 < currentPacketLength s \<and> length (rx t) < length (rx s)) \<or>
     (currentPacketLength s = 0 \<and> t = s)"
  by (auto simp: payload_step_def socket_read_def Let_def
      dest!: resolve_rx split: if_splits option.splits sum.splits list.splits)

text \<open>
  The loop. Every pass that does not leave the handler has taken a header or a
  payload out of the socket's buffer, so the loop ends.
\<close>

function drain :: "command \<Rightarrow> Client \<Rightarrow> error + Client" where
  "drain cmd s =
     (case header_step cmd s of
        Return s1 \<Rightarrow> Inr s1
      | Throw e \<Rightarrow> Inl e
      | Continue s1 \<Rightarrow>
          (case payload_step cmd s1 of
             Return s2 \<Rightarrow> Inr s2
           | Throw e \<Rightarrow> Inl e
           | Continue s2 \<Rightarrow> drain cmd s2))"
  by pat_completeness auto
termination
proof (relation "measure (\<lambda>(cmd, s). length (rx s))")
  show "wf (measure (\<lambda>(cmd, s). length (rx s)))" by simp
next
  fix cmd s s1 s2
  assume h: "header_step cmd s = Continue s1" and p: "payload_step cmd s1 = Continue s2"
  from header_step_rx [OF h] payload_step_rx [OF p]
  have "length (rx s2) < length (rx s)" by auto
  then show "((cmd, s2), (cmd, s)) \<in> measure (\<lambda>(cmd, s). length (rx s))" by simp
qed

declare drain.simps [simp del]

text \<open>Data arrives: the socket buffers it and emits \<open>readable\<close>.\<close>

definition readable :: "command \<Rightarrow> Client \<Rightarrow> byte list \<Rightarrow> error + Client" where
  "readable cmd s chunk = drain cmd (s\<lparr>rx := rx s @ chunk\<rparr>)"

text \<open>A sequence of notifications, each delivering one chunk.\<close>

fun deliver :: "command \<Rightarrow> Client \<Rightarrow> byte list list \<Rightarrow> error + Client" where
  "deliver cmd s [] = Inr s"
| "deliver cmd s (c # cs) = bind_err (readable cmd s c) (\<lambda>t. deliver cmd t cs)"

section \<open>Construction, sending and registering\<close>

text \<open>
  The constructor. An empty name is replaced by \<open>nodejs\<close>; the settings default to
  \<open>{forceProtocolVersion: 0}\<close>.
\<close>

definition default_settings :: Settings where
  "default_settings = \<lparr>forceProtocolVersion = Number 0\<rparr>"

definition new_Client :: "byte list \<Rightarrow> Settings \<Rightarrow> Client" where
  "new_Client nm st =
     \<lparr>name = (if nm = [] then [0x6e, 0x6f, 0x64, 0x65, 0x6a, 0x73] else nm),
      isConnected = False, protocolVersion = None, settings = st, resolver = [],
      currentPacketLength = 0, socket = False, rx = [], events = [], promises = 0\<rparr>"

text \<open>\<open>Buffer.writeUInt32LE\<close> throws a \<open>RangeError\<close> for a value beyond 32 bits.\<close>

definition writeUInt32LE :: "nat \<Rightarrow> error + byte list" where
  "writeUInt32LE v = (if v < 2 ^ 32 then Inr (le_bytes 4 v) else Inl RangeError)"

definition encodeHeader :: "nat \<Rightarrow> nat \<Rightarrow> nat \<Rightarrow> error + byte list" where
  "encodeHeader cid len dev =
     bind_err (writeUInt32LE dev) (\<lambda>d.
     bind_err (writeUInt32LE cid) (\<lambda>c.
     bind_err (writeUInt32LE len) (\<lambda>l.
       Inr (magic @ d @ c @ l))))"

text \<open>The packet \<open>sendMessage\<close> puts on the wire: the header, then the payload.\<close>

definition packet :: "nat \<Rightarrow> byte list \<Rightarrow> nat \<Rightarrow> error + byte list" where
  "packet cid buffer dev =
     bind_err (encodeHeader cid (length buffer) dev) (\<lambda>hdr. Inr (hdr @ buffer))"

definition sendMessage :: "Client \<Rightarrow> nat \<Rightarrow> byte list \<Rightarrow> nat \<Rightarrow> error + Client" where
  "sendMessage s cid buffer dev =
     (if \<not> isConnected s then Inl NotConnected
      else bind_err (packet cid buffer dev) (\<lambda>p.
             if socket s then Inr (s\<lparr>events := events s @ [Written p]\<rparr>) else Inl TypeError))"

text \<open>
  \<open>readMessage\<close> creates a promise and appends an entry holding its \<open>resolve\<close>
  callback to the queue.
\<close>

definition readMessage :: "Client \<Rightarrow> nat \<Rightarrow> nat \<Rightarrow> error + Client" where
  "readMessage s cid dev =
     (if \<not> isConnected s then Inl NotConnected
      else Inr (s\<lparr>resolver := resolver s @
                  [\<lparr>commandId = cid, deviceId = dev, header = None, resolveFn = promises s\<rparr>],
                promises := Suc (promises s)\<rparr>))"

text \<open>A stream of packets, as a server would put them on the wire one after another.\<close>

fun stream :: "(nat \<times> byte list \<times> nat) list \<Rightarrow> error + byte list" where
  "stream [] = Inr []"
| "stream ((cid, buffer, dev) # ps) =
     bind_err (packet cid buffer dev) (\<lambda>p.
     bind_err (stream ps) (\<lambda>rest. Inr (p @ rest)))"

text \<open>
  The identifiers of the OpenRGB SDK protocol, for concrete runs. No result below
  depends on the numbers.
\<close>

definition openrgb :: command where
  "openrgb =
     \<lparr>requestProtocolVersion = 40, setClientName = 50, deviceListUpdated = 100,
      updateMode = 1101, saveMode = 1102\<rparr>"

section \<open>Protocol version negotiation and disconnecting\<close>

text \<open>
  \<open>bufferpack\<close> is an external package. Its packer for the format \<open><I\<close> writes four
  little-endian bytes, after bringing a number outside \<open>0 .. 2^32 - 1\<close> to the nearer
  bound; \<open>undefined\<close> is written as zero.
\<close>

definition pack_I :: "int option \<Rightarrow> byte list" where
  "pack_I v =
     (case v of
        None \<Rightarrow> le_bytes 4 0
      | Some n \<Rightarrow> le_bytes 4 (nat (max 0 (min n (2 ^ 32 - 1)))))"

text \<open>JavaScript's truthiness of the property: a number other than zero.\<close>

definition truthy :: "jsfield \<Rightarrow> bool" where
  "truthy f = (case f of Number n \<Rightarrow> n \<noteq> 0 | _ \<Rightarrow> False)"

text \<open>
  \<open>("forceProtocolVersion" in this.settings) ? this.settings.forceProtocolVersion
  : CLIENT_PROTOCOL_VERSION\<close>; \<open>None\<close> stands for \<open>undefined\<close>.
\<close>

definition clientVersion :: "Settings \<Rightarrow> int option" where
  "clientVersion st =
     (case forceProtocolVersion st of
        Absent \<Rightarrow> Some CLIENT_PROTOCOL_VERSION
      | Undefined \<Rightarrow> None
      | Number n \<Rightarrow> Some n)"

text \<open>\<open>getProtocolVersion\<close> up to its \<open>await\<close>: the request is sent and the reply registered.\<close>

definition getProtocolVersion :: "command \<Rightarrow> Client \<Rightarrow> error + Client" where
  "getProtocolVersion cmd s =
     bind_err (sendMessage s (requestProtocolVersion cmd) (pack_I (clientVersion (settings s))) 0)
       (\<lambda>s1. readMessage s1 (requestProtocolVersion cmd) 0)"

text \<open>
  What the race in \<open>connect\<close> between the reply and the timer yields: the version the
  server sent, or the \<open>0\<close> the timer rejects with, which \<open>catch\<close> turns into the value.
\<close>

datatype outcome = Reply nat | Timeout

definition serverProtocolVersion :: "outcome \<Rightarrow> int" where
  "serverProtocolVersion out = (case out of Reply v \<Rightarrow> int v | Timeout \<Rightarrow> 0)"

text \<open>The choice of \<open>this.protocolVersion\<close> in \<open>connect\<close>.\<close>

definition negotiate :: "Settings \<Rightarrow> int \<Rightarrow> int option" where
  "negotiate st server =
     (if truthy (forceProtocolVersion st) \<and> server = 0
      then (case forceProtocolVersion st of Number n \<Rightarrow> Some n | _ \<Rightarrow> None)
      else (case clientVersion st of
              None \<Rightarrow> None
            | Some c \<Rightarrow> Some (if server < c then server else c)))"

text \<open>The method \<open>setClientName\<close> (the name itself is taken by the command table).\<close>

definition setClientName_call :: "command \<Rightarrow> Client \<Rightarrow> byte list \<Rightarrow> error + Client" where
  "setClientName_call cmd s nm = sendMessage s (setClientName cmd) (nm @ [0x00]) 0"

text \<open>
  \<open>connect\<close> once the socket is connected: a fresh socket, \<open>isConnected\<close> set, and the
  version request under way.
\<close>

definition connect_opened :: "command \<Rightarrow> Client \<Rightarrow> error + Client" where
  "connect_opened cmd s =
     getProtocolVersion cmd (s\<lparr>socket := True, rx := [], isConnected := True\<rparr>)"

text \<open>
  \<open>connect\<close> from the point where the race has been decided: the protocol version
  is chosen, the client's name is sent and \<open>connect\<close> is emitted.
\<close>

definition connect_negotiated :: "command \<Rightarrow> Client \<Rightarrow> outcome \<Rightarrow> error + Client" where
  "connect_negotiated cmd s out =
     bind_err
       (setClientName_call cmd
          (s\<lparr>protocolVersion := negotiate (settings s) (serverProtocolVersion out)\<rparr>)
          (name s))
       (\<lambda>s1. Inr (s1\<lparr>events := events s1 @ [Emit ''connect'']\<rparr>))"

text \<open>\<open>disconnect\<close>; \<open>this.socket!.end()\<close> throws when no socket has been created.\<close>

definition disconnect :: "Client \<Rightarrow> error + Client" where
  "disconnect s =
     (if socket s
      then Inr (s\<lparr>events := events s @ [Ended], isConnected := False, resolver := []\<rparr>)
      else Inl TypeError)"

text \<open>The handlers of the socket's \<open>close\<close> and \<open>error\<close> events.\<close>

definition closed :: "Client \<Rightarrow> Client" where
  "closed s = s\<lparr>events := events s @ [Emit ''disconnect''], isConnected := False\<rparr>"

definition errored :: "Client \<Rightarrow> Client" where
  "errored s = s\<lparr>events := events s @ [Emit ''error''], isConnected := False\<rparr>"

text \<open>
  What can happen to a client, one thing after another. A call that throws back to
  its caller leaves the client as it was and the caller may go on; an exception thrown
  inside the \<open>readable\<close> handler is not caught by anyone.
\<close>

datatype action =
    Readable "byte list"
  | ReadMessage nat nat
  | SendMessage nat "byte list" nat
  | Connect
  | Disconnect
  | Closed
  | Failed

fun run :: "command \<Rightarrow> Client \<Rightarrow> action list \<Rightarrow> error + Client" where
  "run cmd s [] = Inr s"
| "run cmd s (Readable chunk # as) = bind_err (readable cmd s chunk) (\<lambda>t. run cmd t as)"
| "run cmd s (ReadMessage cid dev # as) =
     (case readMessage s cid dev of Inl e \<Rightarrow> run cmd s as | Inr t \<Rightarrow> run cmd t as)"
| "run cmd s (SendMessage cid buffer dev # as) =
     (case sendMessage s cid buffer dev of Inl e \<Rightarrow> run cmd s as | Inr t \<Rightarrow> run cmd t as)"
| "run cmd s (Connect # as) =
     (case connect_opened cmd s of Inl e \<Rightarrow> run cmd s as | Inr t \<Rightarrow> run cmd t as)"
| "run cmd s (Disconnect # as) =
     (case disconnect s of Inl e \<Rightarrow> run cmd s as | Inr t \<Rightarrow> run cmd t as)"
| "run cmd s (Closed # as) = run cmd (closed s) as"
| "run cmd s (Failed # as) = run cmd (errored s) as"

section \<open>The codec\<close>

text \<open>
  A JavaScript string is a sequence of 16-bit code units. \<open>TextDecoder.decode\<close> belongs
  to the platform; the functions that call it take it as the parameter \<open>decode\<close>.
\<close>

type_synonym jsstring = "16 word list"

text \<open>
  \<open>readString\<close>: a 16-bit length, then the text in the bytes from \<open>offset + 2\<close> up to
  \<open>offset + length + 1\<close>; the result pairs the text with \<open>length + 2\<close>.
\<close>

definition readString :: "(byte list \<Rightarrow> 'text) \<Rightarrow> byte list \<Rightarrow> nat \<Rightarrow> error + ('text \<times> nat)" where
  "readString decode buffer offset =
     bind_err (readUInt16LE buffer offset) (\<lambda>len.
       Inr (decode (slice_buf buffer (offset + 2) (offset + len + 1)), len + 2))"

record RGBColor =
  red :: nat
  green :: nat
  blue :: nat

definition readColor :: "byte list \<Rightarrow> nat \<Rightarrow> error + RGBColor" where
  "readColor buffer offset =
     bind_err (readUInt8 buffer offset) (\<lambda>r.
     bind_err (readUInt8 buffer (offset + 1)) (\<lambda>g.
     bind_err (readUInt8 buffer (offset + 2)) (\<lambda>b.
       Inr \<lparr>red = r, green = g, blue = b\<rparr>)))"

text \<open>
  The interface \<open>Mode\<close>. Its fields \<open>id\<close>, \<open>name\<close>, \<open>value\<close> and \<open>flags\<close> are called
  \<open>modeId\<close>, \<open>modeName\<close>, \<open>modeValue\<close> and \<open>modeFlags\<close> here, the short names being
  taken. The three brightness fields are optional.
\<close>

record Mode =
  modeId :: nat
  modeName :: jsstring
  modeValue :: int
  modeFlags :: nat
  speedMin :: nat
  speedMax :: nat
  brightnessMin :: "nat option"
  brightnessMax :: "nat option"
  colorMin :: nat
  colorMax :: nat
  speed :: nat
  brightness :: "nat option"
  direction :: nat
  colorMode :: nat
  colors :: "RGBColor list"
  flagList :: "string list"

text \<open>\<open>Number.prototype.toString(2)\<close> of a natural number.\<close>

function toString2 :: "nat \<Rightarrow> string" where
  "toString2 n =
     (if n < 2 then [if n = 0 then CHR ''0'' else CHR ''1'']
      else toString2 (n div 2) @ [if n mod 2 = 0 then CHR ''0'' else CHR ''1''])"
  by pat_completeness auto
termination
  by (relation "measure (\<lambda>n. n)") auto

declare toString2.simps [simp del]

definition flag_names :: "string list" where
  "flag_names =
     [''speed'', ''directionLR'', ''directionUD'', ''directionHV'', ''brightness'',
      ''perLedColor'', ''modeSpecificColor'', ''randomColor'', ''manualSave'',
      ''automaticSave'']"

text \<open>
  The lookup \<open>flagcheck\<close>: the binary digits of the flags, least significant first,
  after as many empty slots as the digits fall short of the ten names. An array with
  empty slots is a list of options. \<open>Array(n)\<close> throws for negative \<open>n\<close>, that is,
  when there are more digits than names.
\<close>

definition flagcheck :: "nat \<Rightarrow> error + char option list" where
  "flagcheck flags =
     (let flagcheck_str = toString2 flags in
      if length flag_names < length flagcheck_str then Inl InvalidArrayLength
      else Inr (rev (replicate (length flag_names - length flagcheck_str) None @
                     map Some flagcheck_str)))"

text \<open>
  \<open>forEach\<close> visits the slots that are not empty and pushes the name at the index of
  every slot holding the digit 1.
\<close>

definition pushed_flags :: "char option list \<Rightarrow> string list" where
  "pushed_flags fc = map snd (filter (\<lambda>(el, nm). el = Some CHR ''1'') (zip fc flag_names))"

text \<open>\<open>Number(flagcheck[k])\<close> as a condition: true for the digit 1 only.\<close>

definition flagged :: "char option list \<Rightarrow> nat \<Rightarrow> bool" where
  "flagged fc k = (k < length fc \<and> fc ! k = Some CHR ''1'')"

fun readColors :: "byte list \<Rightarrow> nat \<Rightarrow> nat \<Rightarrow> error + (RGBColor list \<times> nat)" where
  "readColors buffer 0 offset = Inr ([], offset)"
| "readColors buffer (Suc n) offset =
     bind_err (readColor buffer offset) (\<lambda>c.
     bind_err (readColors buffer n (offset + 4)) (\<lambda>(cs, offset'). Inr (c # cs, offset')))"

text \<open>One pass of the loop of \<open>readModes\<close>: the mode at \<open>offset\<close> and the offset after it.\<close>

definition readMode ::
  "(byte list \<Rightarrow> jsstring) \<Rightarrow> byte list \<Rightarrow> int \<Rightarrow> nat \<Rightarrow> nat \<Rightarrow> error + (Mode \<times> nat)" where
  "readMode decode buffer version modeIndex offset =
     bind_err (readString decode buffer offset) (\<lambda>(name_text, modeNameLength).
     let offset1 = offset + modeNameLength in
     bind_err (readInt32LE buffer offset1) (\<lambda>mode_value.
     let offset2 = offset1 + 4 in
     bind_err (readUInt32LE buffer offset2) (\<lambda>mode_flags.
     bind_err (readUInt32LE buffer (offset2 + 4)) (\<lambda>speed_min.
     bind_err (readUInt32LE buffer (offset2 + 8)) (\<lambda>speed_max.
     bind_err
       (if 3 \<le> version
        then bind_err (readUInt32LE buffer (offset2 + 12)) (\<lambda>bmin.
             bind_err (readUInt32LE buffer (offset2 + 16)) (\<lambda>bmax.
               Inr (Some bmin, Some bmax, offset2 + 8)))
        else Inr (None, None, offset2)) (\<lambda>(brightness_min, brightness_max, offset3).
     bind_err (readUInt32LE buffer (offset3 + 12)) (\<lambda>color_min.
     bind_err (readUInt32LE buffer (offset3 + 16)) (\<lambda>color_max.
     bind_err (readUInt32LE buffer (offset3 + 20)) (\<lambda>speed0.
     bind_err
       (if 3 \<le> version
        then bind_err (readUInt32LE buffer (offset3 + 24)) (\<lambda>b. Inr (Some b, offset3 + 4))
        else Inr (None, offset3)) (\<lambda>(brightness0, offset4).
     bind_err (readUInt32LE buffer (offset4 + 24)) (\<lambda>direction0.
     bind_err (readUInt32LE buffer (offset4 + 28)) (\<lambda>color_mode.
     let offset5 = offset4 + 32 in
     bind_err (readUInt16LE buffer offset5) (\<lambda>color_length.
     let offset6 = offset5 + 2 in
     bind_err (flagcheck mode_flags) (\<lambda>fc.
     let flag_list =
           pushed_flags fc @
           (if flagged fc 1 \<or> flagged fc 2 \<or> flagged fc 3 then [''direction''] else []);
         no_speed = \<not> flagged fc 0;
         no_brightness = (3 \<le> version \<and> \<not> flagged fc 4);
         no_direction = (\<not> flagged fc 1 \<and> \<not> flagged fc 2 \<and> \<not> flagged fc 3);
         no_colors =
           ((\<not> flagged fc 5 \<and> \<not> flagged fc 6 \<and> \<not> flagged fc 7) \<or> color_length = 0)
     in
     bind_err (readColors buffer (if no_colors then 0 else color_length) offset6)
       (\<lambda>(cs, offset7).
         Inr (\<lparr>modeId = modeIndex,
               modeName = name_text,
               modeValue = mode_value,
               modeFlags = mode_flags,
               speedMin = (if no_speed then 0 else speed_min),
               speedMax = (if no_speed then 0 else speed_max),
               brightnessMin = (if no_brightness then Some 0 else brightness_min),
               brightnessMax = (if no_brightness then Some 0 else brightness_max),
               colorMin = (if no_colors then 0 else color_min),
               colorMax = (if no_colors then 0 else color_max),
               speed = (if no_speed then 0 else speed0),
               brightness = (if no_brightness then Some 0 else brightness0),
               direction = (if no_direction then 0 else direction0),
               colorMode = color_mode,
               colors = cs,
               flagList = flag_list\<rparr>, offset7))))))))))))))))"

text \<open>The loop of \<open>readModes\<close>, from the index \<open>modeIndex\<close> on.\<close>

fun readModes_from ::
  "(byte list \<Rightarrow> jsstring) \<Rightarrow> byte list \<Rightarrow> int \<Rightarrow> nat \<Rightarrow> nat \<Rightarrow> nat \<Rightarrow>
     error + (Mode list \<times> nat)" where
  "readModes_from decode buffer version 0 modeIndex offset = Inr ([], offset)"
| "readModes_from decode buffer version (Suc n) modeIndex offset =
     bind_err (readMode decode buffer version modeIndex offset) (\<lambda>(m, offset').
     bind_err (readModes_from decode buffer version n (Suc modeIndex) offset')
       (\<lambda>(ms, offset''). Inr (m # ms, offset'')))"

definition readModes ::
  "(byte list \<Rightarrow> jsstring) \<Rightarrow> byte list \<Rightarrow> nat \<Rightarrow> nat \<Rightarrow> int \<Rightarrow>
     error + (Mode list \<times> nat)" where
  "readModes decode buffer modeCount offset version =
     readModes_from decode buffer version modeCount 0 offset"

text \<open>
  The packers of \<open>bufferpack\<close> for \<open><H\<close> and \<open>B\<close>, saturating like the one for \<open><I\<close>,
  and for a string of as many characters as the string has: the low byte of every
  code unit.
\<close>

definition pack_H :: "nat \<Rightarrow> byte list" where
  "pack_H n = le_bytes 2 (min n (2 ^ 16 - 1))"

definition pack_B :: "nat \<Rightarrow> byte" where
  "pack_B n = of_nat (min n (2 ^ 8 - 1))"

definition pack_s :: "jsstring \<Rightarrow> byte list" where
  "pack_s str = map ucast str"

definition pack_string :: "jsstring \<Rightarrow> byte list" where
  "pack_string str = pack_H (length str + 1) @ pack_s str @ [0x00]"

definition pack_color_list :: "RGBColor list \<Rightarrow> byte list" where
  "pack_color_list arr =
     pack_H (length arr) @
     concat (map (\<lambda>element. [pack_B (red element), pack_B (green element),
                                 pack_B (blue element), 0x00]) arr)"

text \<open>
  The payload \<open>sendMode\<close> builds from the mode it has selected and patched: the
  mode's id, name, twelve or nine numbers, and colours, behind the length of it all.
\<close>

definition mode_payload :: "int option \<Rightarrow> Mode \<Rightarrow> byte list" where
  "mode_payload version modeData =
     (let pack =
            (if (case version of None \<Rightarrow> False | Some v \<Rightarrow> 3 \<le> v)
             then concat (map pack_I
                    [Some (modeValue modeData),
                     Some (int (modeFlags modeData)),
                     Some (int (speedMin modeData)),
                     Some (int (speedMax modeData)),
                     map_option int (brightnessMin modeData),
                     map_option int (brightnessMax modeData),
                     Some (int (colorMin modeData)),
                     Some (int (colorMax modeData)),
                     Some (int (speed modeData)),
                     map_option int (brightness modeData),
                     Some (int (direction modeData)),
                     Some (int (colorMode modeData))])
             else concat (map pack_I
                    [Some (modeValue modeData),
                     Some (int (modeFlags modeData)),
                     Some (int (speedMin modeData)),
                     Some (int (speedMax modeData)),
                     Some (int (colorMin modeData)),
                     Some (int (colorMax modeData)),
                     Some (int (speed modeData)),
                     Some (int (direction modeData)),
                     Some (int (colorMode modeData))]));
          data =
            pack_I (Some (int (modeId modeData))) @
            pack_string (modeName modeData) @
            pack @
            pack_color_list (colors modeData)
      in pack_I (Some (int (length data))) @ data)"

text \<open>
  The decoder for text of bytes below \<open>0x80\<close>, on which \<open>TextDecoder\<close> yields the
  bytes as code units. It serves where a run needs a concrete decoder.
\<close>

definition ascii_decode :: "byte list \<Rightarrow> jsstring" where
  "ascii_decode bs = map ucast bs"

text \<open>
  The capability tags of a flags value, as the specification has them: the names at
  the positions of the set bits among the first ten, bit 0 first.
\<close>

definition capability_tags :: "nat \<Rightarrow> string list" where
  "capability_tags fl = map (\<lambda>k. flag_names ! k) (filter (bit fl) [0..<length flag_names])"

text \<open>
  \<open>wire_mode decode m\<close>: every field of \<open>m\<close> lies in the range of its wire format, the
  brightness fields are present, the flags use the ten named bits only, and the
  decoder gives back the name from the bytes the packer writes for it.
  \<open>settled m\<close>: \<open>m\<close> is as the decoder leaves a mode, with \<open>flagList\<close> derived from the
  flags and every field whose capability bit is unset at zero.
\<close>

definition wire_mode :: "(byte list \<Rightarrow> jsstring) \<Rightarrow> Mode \<Rightarrow> bool" where
  "wire_mode decode m =
     (decode (pack_s (modeName m)) = modeName m \<and>
      length (modeName m) + 1 < 2 ^ 16 \<and>
      0 \<le> modeValue m \<and> modeValue m < 2 ^ 31 \<and>
      modeFlags m < 2 ^ 10 \<and>
      speedMin m < 2 ^ 32 \<and> speedMax m < 2 ^ 32 \<and>
      (case brightnessMin m of None \<Rightarrow> False | Some b \<Rightarrow> b < 2 ^ 32) \<and>
      (case brightnessMax m of None \<Rightarrow> False | Some b \<Rightarrow> b < 2 ^ 32) \<and>
      colorMin m < 2 ^ 32 \<and> colorMax m < 2 ^ 32 \<and> speed m < 2 ^ 32 \<and>
      (case brightness m of None \<Rightarrow> False | Some b \<Rightarrow> b < 2 ^ 32) \<and>
      direction m < 2 ^ 32 \<and> colorMode m < 2 ^ 32 \<and>
      length (colors m) < 2 ^ 16 \<and>
      list_all (\<lambda>c. red c < 2 ^ 8 \<and> green c < 2 ^ 8 \<and> blue c < 2 ^ 8) (colors m))"

definition settled :: "Mode \<Rightarrow> bool" where
  "settled m =
     (let fl = modeFlags m in
      flagList m =
        capability_tags fl @ (if bit fl 1 \<or> bit fl 2 \<or> bit fl 3 then [''direction''] else []) \<and>
      (bit fl 0 \<or> (speedMin m = 0 \<and> speedMax m = 0 \<and> speed m = 0)) \<and>
      (bit fl 4 \<or>
         (brightnessMin m = Some 0 \<and> brightnessMax m = Some 0 \<and> brightness m = Some 0)) \<and>
      (bit fl 1 \<or> bit fl 2 \<or> bit fl 3 \<or> direction m = 0) \<and>
      (((bit fl 5 \<or> bit fl 6 \<or> bit fl 7) \<and> colors m \<noteq> []) \<or>
         (colors m = [] \<and> colorMin m = 0 \<and> colorMax m = 0)))"

section \<open>Notions used to state properties of the handler\<close>

text \<open>
  \<open>framed n bs\<close>: the bytes \<open>bs\<close> are what remains of a stream of whole packets
  when \<open>n\<close> bytes of the current payload are still to come (\<open>n = 0\<close>: a header
  comes next). Every header starts with the magic and no payload is longer
  than 1 GiB.
\<close>

function framed :: "nat \<Rightarrow> byte list \<Rightarrow> bool" where
  "framed n bs =
     (if 0 < n then (if n \<le> length bs \<and> n \<le> 2 ^ 30 then framed 0 (drop n bs) else False)
      else if bs = [] then True
      else if 16 \<le> length bs \<and> slice_buf bs 0 4 = magic
      then framed (le_nat (slice_buf bs 12 16)) (drop 16 bs)
      else False)"
  by pat_completeness auto
termination
  by (relation "measure (\<lambda>(n, bs). length bs)") auto

declare framed.simps [simp del]

text \<open>
  \<open>starved s\<close>: the socket's buffer holds less than the handler needs for its next
  step, a whole header or the whole awaited payload.
\<close>

definition starved :: "Client \<Rightarrow> bool" where
  "starved s =
     (if currentPacketLength s = 0 then length (rx s) < HEADER_SIZE
      else length (rx s) < currentPacketLength s)"

text \<open>
  \<open>armed s\<close>: while a payload is awaited and the queue has a first entry, that entry
  carries the 16 bytes of the header.
\<close>

definition armed :: "Client \<Rightarrow> bool" where
  "armed s =
     (if 0 < currentPacketLength s
      then (case resolver s of
              [] \<Rightarrow> True
            | r # rs \<Rightarrow> (case header r of None \<Rightarrow> False | Some hdr \<Rightarrow> length hdr = HEADER_SIZE))
      else True)"

text \<open>
  For a set \<open>X\<close> of promises: \<open>unheard X s\<close> says that no entry of the queue holds a
  promise of \<open>X\<close> and all of \<open>X\<close> were created before; \<open>silent X es\<close> that the events
  \<open>es\<close> fulfil no promise of \<open>X\<close>; \<open>quiet X s t\<close> that the client went from \<open>s\<close> to
  \<open>t\<close> adding only events that are silent for \<open>X\<close>, and \<open>X\<close> is unheard in \<open>t\<close>.
\<close>

definition unheard :: "nat set \<Rightarrow> Client \<Rightarrow> bool" where
  "unheard X s = ((\<forall>r\<in>set (resolver s). resolveFn r \<notin> X) \<and> (\<forall>i\<in>X. i < promises s))"

definition silent :: "nat set \<Rightarrow> event list \<Rightarrow> bool" where
  "silent X es = (\<forall>i\<in>X. \<forall>p. Fulfilled i p \<notin> set es)"

definition quiet :: "nat set \<Rightarrow> Client \<Rightarrow> Client \<Rightarrow> bool" where
  "quiet X s t = (unheard X t \<and> (\<exists>new. events t = events s @ new \<and> silent X new))"

section \<open>The correlator\<close>

lemma findIndex_None: "findIndex P xs = None \<longleftrightarrow> (\<forall>x\<in>set xs. \<not> P x)"
  by (induction xs) auto

lemma findIndex_Some:
  "findIndex P xs = Some i \<longleftrightarrow> i < length xs \<and> P (xs ! i) \<and> (\<forall>j<i. \<not> P (xs ! j))"
proof (induction xs arbitrary: i)
  case Nil
  then show ?case by simp
next
  case (Cons x xs)
  show ?case
  proof (cases "P x")
    case True
    then show ?thesis by (cases i) auto
  next
    case False
    show ?thesis
    proof (cases i)
      case 0
      with False show ?thesis by auto
    next
      case (Suc k)
      with False Cons.IH [of k] show ?thesis
        by (auto simp: less_Suc_eq_0_disj)
    qed
  qed
qed

text \<open>
  Claim C5. A packet whose command identifier is not the broadcast code, handed to
  \<open>resolve\<close> with any queue: the oldest entry with the packet's device and command
  identifiers leaves the queue and its promise is fulfilled with the bytes after the
  16-byte header; when no entry has them, nothing changes.
\<close>

theorem resolve_first_match:
  assumes "decodeHeader buffer = Inr (dev, cid, len)"
    and "cid \<noteq> deviceListUpdated cmd"
  shows "(\<forall>i. i < length (resolver s) \<and>
              (deviceId (resolver s ! i) = dev \<and> commandId (resolver s ! i) = cid) \<and>
              (\<forall>j<i. \<not> (deviceId (resolver s ! j) = dev \<and> commandId (resolver s ! j) = cid)) \<longrightarrow>
            resolve cmd s buffer =
              Inr (s\<lparr>resolver := take i (resolver s) @ drop (Suc i) (resolver s),
                     events := events s @
                       [Fulfilled (resolveFn (resolver s ! i)) (drop 16 buffer)]\<rparr>)) \<and>
         ((\<forall>r\<in>set (resolver s). \<not> (deviceId r = dev \<and> commandId r = cid)) \<longrightarrow>
            resolve cmd s buffer = Inr s)"
proof (intro conjI allI impI)
  fix i
  assume "i < length (resolver s) \<and>
              (deviceId (resolver s ! i) = dev \<and> commandId (resolver s ! i) = cid) \<and>
              (\<forall>j<i. \<not> (deviceId (resolver s ! j) = dev \<and> commandId (resolver s ! j) = cid))"
  then have f: "findIndex (\<lambda>r. deviceId r = dev \<and> commandId r = cid) (resolver s) = Some i"
    by (simp add: findIndex_Some)
  moreover from \<open>i < length (resolver s) \<and> _\<close> have "resolver s \<noteq> []" by auto
  ultimately show "resolve cmd s buffer =
              Inr (s\<lparr>resolver := take i (resolver s) @ drop (Suc i) (resolver s),
                     events := events s @
                       [Fulfilled (resolveFn (resolver s ! i)) (drop 16 buffer)]\<rparr>)"
    using assms by (simp add: resolve_def bind_err_def)
next
  assume "\<forall>r\<in>set (resolver s). \<not> (deviceId r = dev \<and> commandId r = cid)"
  then have "findIndex (\<lambda>r. deviceId r = dev \<and> commandId r = cid) (resolver s) = None"
    by (simp add: findIndex_None)
  then show "resolve cmd s buffer = Inr s"
    using assms by (simp add: resolve_def bind_err_def)
qed


theorem resolve_first_match_witness:
  "decodeHeader [0x4f, 0x52, 0x47, 0x42, 0, 0, 0, 0, 1, 0, 0, 0, 4, 0, 0, 0, 3, 0, 0, 0]
     = Inr (0, 1, 4) \<and>
   1 \<noteq> deviceListUpdated openrgb \<and>
   resolve openrgb
     ((new_Client [] default_settings)
        \<lparr>resolver :=
           [\<lparr>commandId = 2, deviceId = 0, header = None, resolveFn = 7\<rparr>,
            \<lparr>commandId = 1, deviceId = 0, header = None, resolveFn = 8\<rparr>,
            \<lparr>commandId = 1, deviceId = 0, header = None, resolveFn = 9\<rparr>]\<rparr>)
     [0x4f, 0x52, 0x47, 0x42, 0, 0, 0, 0, 1, 0, 0, 0, 4, 0, 0, 0, 3, 0, 0, 0]
     = Inr ((new_Client [] default_settings)
        \<lparr>resolver :=
           [\<lparr>commandId = 2, deviceId = 0, header = None, resolveFn = 7\<rparr>,
            \<lparr>commandId = 1, deviceId = 0, header = None, resolveFn = 9\<rparr>],
         events := [Fulfilled 8 [3, 0, 0, 0]]\<rparr>)"
proof -
  let ?buf = "[0x4f, 0x52, 0x47, 0x42, 0, 0, 0, 0, 1, 0, 0, 0, 4, 0, 0, 0, 3, 0, 0, 0] :: byte list"
  let ?s = "(new_Client [] default_settings)
        \<lparr>resolver :=
           [\<lparr>commandId = 2, deviceId = 0, header = None, resolveFn = 7\<rparr>,
            \<lparr>commandId = 1, deviceId = 0, header = None, resolveFn = 8\<rparr>,
            \<lparr>commandId = 1, deviceId = 0, header = None, resolveFn = 9\<rparr>]\<rparr>"
  have h1: "decodeHeader ?buf = Inr (0, 1, 4)"
    by (simp add: decodeHeader_def bind_err_def readUInt32LE_def slice_buf_def)
  have h2: "1 \<noteq> deviceListUpdated openrgb"
    by (simp add: openrgb_def)
  from resolve_first_match [OF h1 h2, of ?s]
  have "1 < length (resolver ?s) \<and>
          (deviceId (resolver ?s ! 1) = 0 \<and> commandId (resolver ?s ! 1) = 1) \<and>
          (\<forall>j<1. \<not> (deviceId (resolver ?s ! j) = 0 \<and> commandId (resolver ?s ! j) = 1)) \<longrightarrow>
        resolve openrgb ?s ?buf =
          Inr (?s\<lparr>resolver := take 1 (resolver ?s) @ drop (Suc 1) (resolver ?s),
                 events := events ?s @
                   [Fulfilled (resolveFn (resolver ?s ! 1)) (drop 16 ?buf)]\<rparr>)"
    by blast
  then have "resolve openrgb ?s ?buf =
          Inr (?s\<lparr>resolver := take 1 (resolver ?s) @ drop (Suc 1) (resolver ?s),
                 events := events ?s @
                   [Fulfilled (resolveFn (resolver ?s ! 1)) (drop 16 ?buf)]\<rparr>)"
    by (simp add: new_Client_def)
  then show ?thesis
    using h1 h2 by (simp add: new_Client_def)
qed

section \<open>The framer\<close>

lemma le_bytes_4:
  "le_bytes 4 v = [of_nat v, of_nat (v div 256), of_nat (v div 256 div 256),
                   of_nat (v div 256 div 256 div 256)]"
proof -
  have e: "(4::nat) = Suc (Suc (Suc (Suc 0)))" by simp
  show ?thesis by (subst e) simp
qed

lemma le_nat_le_bytes: "v < 256 ^ k \<Longrightarrow> le_nat (le_bytes k v) = v"
proof (induction k arbitrary: v)
  case 0
  then show ?case by simp
next
  case (Suc k)
  from Suc.prems have "v div 256 < 256 ^ k"
    by (simp add: less_mult_imp_div_less mult.commute)
  with Suc.IH have "le_nat (le_bytes k (v div 256)) = v div 256" by simp
  moreover have "unat (of_nat v :: byte) = v mod 256"
    by (simp add: unat_of_nat)
  ultimately show ?case by simp
qed

lemma length_le_bytes [simp]: "length (le_bytes k v) = k"
  by (induction k arbitrary: v) auto

lemma packet_shape:
  assumes "packet cid buffer dev = Inr p"
  shows "p = magic @ le_bytes 4 dev @ le_bytes 4 cid @ le_bytes 4 (length buffer) @ buffer
         \<and> length buffer < 2 ^ 32"
  using assms
  by (auto simp: packet_def encodeHeader_def writeUInt32LE_def bind_err_def split: if_splits)

lemma framed_packet:
  assumes "packet cid buffer dev = Inr p" and "framed 0 rest" and "length buffer \<le> 2 ^ 30"
  shows "framed 0 (p @ rest)"
proof -
  let ?h = "magic @ le_bytes 4 dev @ le_bytes 4 cid @ le_bytes 4 (length buffer)"
  from packet_shape [OF assms(1)]
  have p: "p = ?h @ buffer" and len: "length buffer < 2 ^ 32" by auto
  have lh: "length ?h = 16" by (simp add: magic_def)
  have m: "slice_buf (p @ rest) 0 4 = magic" by (simp add: p slice_buf_def magic_def)
  have "slice_buf (p @ rest) 12 16 = le_bytes 4 (length buffer)"
    by (simp add: p slice_buf_def magic_def)
  moreover from len have "le_nat (le_bytes 4 (length buffer)) = length buffer"
    by (intro le_nat_le_bytes) simp
  ultimately have l: "le_nat (slice_buf (p @ rest) 12 16) = length buffer" by simp
  have d: "drop 16 (p @ rest) = buffer @ rest"
    using lh by (simp add: p)
  have "framed (length buffer) (buffer @ rest)"
  proof (cases "buffer = []")
    case True
    with assms(2) show ?thesis by simp
  next
    case False
    with assms(2,3) show ?thesis by (subst framed.simps) simp
  qed
  with m l d lh show ?thesis
    by (subst framed.simps) (simp add: p)
qed

lemma stream_framed:
  "stream ps = Inr bytes \<Longrightarrow> \<forall>(cid, buffer, dev)\<in>set ps. length buffer \<le> 2 ^ 30 \<Longrightarrow>
     framed 0 bytes"
proof (induction ps arbitrary: bytes)
  case Nil
  then show ?case by (simp add: framed.simps)
next
  case (Cons a ps)
  obtain cid buffer dev where a: "a = (cid, buffer, dev)" by (cases a) auto
  from Cons.prems(1) a obtain p rest where
    p: "packet cid buffer dev = Inr p" and r: "stream ps = Inr rest" and b: "bytes = p @ rest"
    by (auto simp: bind_err_def split: sum.splits)
  from Cons.prems(2) a have l: "length buffer \<le> 2 ^ 30"
    and ls: "\<forall>(cid, buffer, dev)\<in>set ps. length buffer \<le> 2 ^ 30" by simp_all
  from Cons.IH [OF r ls] framed_packet [OF p _ l] b show ?case by simp
qed


lemma resolve_feed:
  "resolve cmd (s\<lparr>rx := x\<rparr>) b =
     (case resolve cmd s b of Inl e \<Rightarrow> Inl e | Inr t \<Rightarrow> Inr (t\<lparr>rx := x\<rparr>))"
  by (auto simp: resolve_def bind_err_def split: sum.splits prod.splits option.splits)

lemma resolve_feed_pending:
  "resolve cmd (s\<lparr>rx := x, currentPacketLength := n\<rparr>) b =
     (case resolve cmd (s\<lparr>currentPacketLength := n\<rparr>) b of
        Inl e \<Rightarrow> Inl e
      | Inr t \<Rightarrow> Inr (t\<lparr>rx := x\<rparr>))"
  by (auto simp: resolve_def bind_err_def split: sum.splits prod.splits option.splits)

lemma resolve_keeps:
  "resolve cmd s b = Inr t \<Longrightarrow>
     rx t = rx s \<and> currentPacketLength t = currentPacketLength s"
  by (auto simp: resolve_def bind_err_def split: sum.splits prod.splits if_splits option.splits)

lemma framed_header:
  "framed 0 bs \<Longrightarrow> 16 \<le> length bs \<Longrightarrow>
     slice_buf bs 0 4 = magic \<and> framed (le_nat (slice_buf bs 12 16)) (drop 16 bs)"
  by (subst (asm) framed.simps) (auto split: if_splits)

lemma framed_payload:
  "framed n bs \<Longrightarrow> 0 < n \<Longrightarrow> n \<le> length bs \<Longrightarrow> framed 0 (drop n bs)"
  by (subst (asm) framed.simps) (auto split: if_splits)

lemma framed_bound: "framed n bs \<Longrightarrow> n \<le> 2 ^ 30"
  by (subst (asm) framed.simps) (auto split: if_splits)

lemma header_step_Return:
  assumes "header_step cmd s = Return t" and "framed (currentPacketLength s) (rx s @ ys)"
  shows "t = s \<and> currentPacketLength s = 0 \<and> length (rx s) < 16"
proof (cases "currentPacketLength s = 0 \<and> 16 \<le> length (rx s)")
  case True
  with assms(2) have "slice_buf (rx s @ ys) 0 4 = magic"
    using framed_header [of "rx s @ ys"] by simp
  with True have "slice_buf (take 16 (rx s)) 0 4 = magic"
    by (simp add: slice_buf_def)
  with True assms(1) show ?thesis
    by (auto simp: header_step_def socket_read_def HEADER_SIZE_def Let_def
        split: if_splits sum.splits list.splits)
next
  case False
  with assms(1) show ?thesis
    by (auto simp: header_step_def socket_read_def HEADER_SIZE_def Let_def
        split: if_splits sum.splits list.splits)
qed

lemma header_step_Continue:
  assumes "header_step cmd s = Continue t"
  shows "header_step cmd (s\<lparr>rx := rx s @ ys\<rparr>) = Continue (t\<lparr>rx := rx t @ ys\<rparr>)"
  using assms
  by (auto simp: header_step_def socket_read_def HEADER_SIZE_def Let_def resolve_feed_pending
      dest: resolve_rx split: if_splits sum.splits list.splits)

lemma header_step_Throw:
  assumes "header_step cmd s = Throw e"
  shows "header_step cmd (s\<lparr>rx := rx s @ ys\<rparr>) = Throw e"
  using assms
  by (auto simp: header_step_def socket_read_def HEADER_SIZE_def Let_def resolve_feed_pending
      split: if_splits sum.splits list.splits)

lemma header_step_framed:
  assumes "header_step cmd s = Continue t" and "framed (currentPacketLength s) (rx s @ ys)"
  shows "framed (currentPacketLength t) (rx t @ ys)"
proof (cases "currentPacketLength s = 0")
  case False
  with assms show ?thesis by (simp add: header_step_def)
next
  case True
  with assms(1) have len: "16 \<le> length (rx s)"
    by (auto simp: header_step_def socket_read_def HEADER_SIZE_def split: if_splits)
  with True assms(2)
  have f: "framed (le_nat (slice_buf (rx s @ ys) 12 16)) (drop 16 (rx s @ ys))"
    using framed_header [of "rx s @ ys"] by simp
  from len have a: "slice_buf (rx s @ ys) 12 16 = slice_buf (take 16 (rx s)) 12 16"
    by (simp add: slice_buf_def drop_take)
  from len have b: "drop 16 (rx s @ ys) = drop 16 (rx s) @ ys" by simp
  from assms(1) True len f show ?thesis
    unfolding a b
    by (auto simp: header_step_def socket_read_def HEADER_SIZE_def Let_def readUInt32LE_def
        dest: resolve_keeps
        split: if_splits sum.splits list.splits)
qed

lemma payload_step_Return:
  assumes "payload_step cmd s = Return t"
  shows "t = s \<and> 0 < currentPacketLength s \<and> length (rx s) < currentPacketLength s"
  using assms
  by (auto simp: payload_step_def socket_read_def Let_def
      split: if_splits sum.splits list.splits option.splits)

lemma payload_step_Continue:
  assumes "payload_step cmd s = Continue t"
  shows "payload_step cmd (s\<lparr>rx := rx s @ ys\<rparr>) = Continue (t\<lparr>rx := rx t @ ys\<rparr>)"
  using assms
  by (auto simp: payload_step_def socket_read_def Let_def resolve_feed_pending
      dest: resolve_rx split: if_splits sum.splits list.splits option.splits)

lemma payload_step_Throw:
  assumes "payload_step cmd s = Throw e"
  shows "payload_step cmd (s\<lparr>rx := rx s @ ys\<rparr>) = Throw e"
  using assms
  by (auto simp: payload_step_def socket_read_def Let_def resolve_feed_pending
      split: if_splits sum.splits list.splits option.splits)

lemma payload_step_framed:
  assumes "payload_step cmd s = Continue t" and "framed (currentPacketLength s) (rx s @ ys)"
  shows "framed (currentPacketLength t) (rx t @ ys)"
proof (cases "0 < currentPacketLength s")
  case False
  with assms show ?thesis by (simp add: payload_step_def)
next
  case True
  with assms(1) have len: "currentPacketLength s \<le> length (rx s)"
    by (auto simp: payload_step_def socket_read_def split: if_splits)
  with True assms(2) have "framed 0 (drop (currentPacketLength s) (rx s @ ys))"
    using framed_payload [of "currentPacketLength s" "rx s @ ys"] by simp
  with len have f: "framed 0 (drop (currentPacketLength s) (rx s) @ ys)" by simp
  from assms(1) True len f show ?thesis
    by (auto simp: payload_step_def socket_read_def Let_def
        dest: resolve_keeps
        split: if_splits sum.splits list.splits option.splits)
qed


lemma drain_feed:
  "framed (currentPacketLength s) (rx s @ ys) \<Longrightarrow>
     drain cmd (s\<lparr>rx := rx s @ ys\<rparr>) =
       bind_err (drain cmd s) (\<lambda>t. drain cmd (t\<lparr>rx := rx t @ ys\<rparr>))"
proof (induction cmd s rule: drain.induct)
  case (1 cmd s)
  show ?case
  proof (cases "header_step cmd s")
    case (Return t)
    from header_step_Return [OF Return "1.prems"] have "t = s" by simp
    with Return have "drain cmd s = Inr s" by (simp add: drain.simps)
    then show ?thesis by (simp add: bind_err_def)
  next
    case (Throw e)
    from header_step_Throw [OF Throw] Throw show ?thesis
      by (simp add: drain.simps bind_err_def)
  next
    case h: (Continue s1)
    note h' = header_step_Continue [OF h, of ys]
    note f1 = header_step_framed [OF h "1.prems"]
    show ?thesis
    proof (cases "payload_step cmd s1")
      case (Return t)
      from payload_step_Return [OF Return] have t: "t = s1" and pos: "0 < currentPacketLength s1"
        by simp_all
      from h Return t have l: "drain cmd s = Inr s1" by (simp add: drain.simps)
      from pos have "header_step cmd (s1\<lparr>rx := rx s1 @ ys\<rparr>) = Continue (s1\<lparr>rx := rx s1 @ ys\<rparr>)"
        by (simp add: header_step_def)
      then have "drain cmd (s1\<lparr>rx := rx s1 @ ys\<rparr>) =
          (case payload_step cmd (s1\<lparr>rx := rx s1 @ ys\<rparr>) of
             Return s2 \<Rightarrow> Inr s2 | Throw e \<Rightarrow> Inl e | Continue s2 \<Rightarrow> drain cmd s2)"
        by (subst drain.simps) simp
      moreover from h' have "drain cmd (s\<lparr>rx := rx s @ ys\<rparr>) =
          (case payload_step cmd (s1\<lparr>rx := rx s1 @ ys\<rparr>) of
             Return s2 \<Rightarrow> Inr s2 | Throw e \<Rightarrow> Inl e | Continue s2 \<Rightarrow> drain cmd s2)"
        by (subst drain.simps) simp
      ultimately show ?thesis using l by (simp add: bind_err_def)
    next
      case (Throw e)
      from h Throw have "drain cmd s = Inl e" by (simp add: drain.simps)
      moreover from h' payload_step_Throw [OF Throw, of ys]
      have "drain cmd (s\<lparr>rx := rx s @ ys\<rparr>) = Inl e" by (subst drain.simps) simp
      ultimately show ?thesis by (simp add: bind_err_def)
    next
      case p: (Continue s2)
      note p' = payload_step_Continue [OF p, of ys]
      note f2 = payload_step_framed [OF p f1]
      from h p have "drain cmd s = drain cmd s2" by (subst drain.simps) simp
      moreover from h' p' have "drain cmd (s\<lparr>rx := rx s @ ys\<rparr>) = drain cmd (s2\<lparr>rx := rx s2 @ ys\<rparr>)"
        by (subst drain.simps) simp
      ultimately show ?thesis using "1.IH" [OF h p f2] by simp
    qed
  qed
qed

lemma drain_starved:
  "framed (currentPacketLength s) (rx s @ ys) \<Longrightarrow> drain cmd s = Inr t \<Longrightarrow>
     starved t \<and> framed (currentPacketLength t) (rx t @ ys)"
proof (induction cmd s rule: drain.induct)
  case (1 cmd s)
  show ?case
  proof (cases "header_step cmd s")
    case (Return u)
    from header_step_Return [OF Return "1.prems"(1)]
    have u: "u = s" "currentPacketLength s = 0" "length (rx s) < 16" by simp_all
    from Return "1.prems"(2) have "t = u" by (simp add: drain.simps)
    with u "1.prems"(1) show ?thesis by (simp add: starved_def HEADER_SIZE_def)
  next
    case (Throw e)
    with "1.prems"(2) show ?thesis by (simp add: drain.simps)
  next
    case h: (Continue s1)
    note f1 = header_step_framed [OF h "1.prems"(1)]
    show ?thesis
    proof (cases "payload_step cmd s1")
      case (Return u)
      from payload_step_Return [OF Return]
      have u: "u = s1" "0 < currentPacketLength s1" "length (rx s1) < currentPacketLength s1"
        by simp_all
      from h Return "1.prems"(2) have "t = u" by (simp add: drain.simps)
      with u f1 show ?thesis by (simp add: starved_def)
    next
      case (Throw e)
      with h "1.prems"(2) show ?thesis by (simp add: drain.simps)
    next
      case p: (Continue s2)
      from h p "1.prems"(2) have "drain cmd s2 = Inr t" by (simp add: drain.simps)
      with "1.IH" [OF h p payload_step_framed [OF p f1]] show ?thesis by simp
    qed
  qed
qed

lemma starved_drain:
  "starved t \<Longrightarrow> currentPacketLength t \<le> 2 ^ 30 \<Longrightarrow> drain cmd t = Inr t"
  by (subst drain.simps)
     (auto simp: starved_def header_step_def payload_step_def socket_read_def HEADER_SIZE_def)

lemma decodeHeader_total: "16 \<le> length b \<Longrightarrow> \<exists>r. decodeHeader b = Inr r"
  by (simp add: decodeHeader_def bind_err_def readUInt32LE_def)

lemma resolve_total:
  assumes "16 \<le> length b"
  shows "\<exists>t. resolve cmd s b = Inr t"
proof -
  from decodeHeader_total [OF assms] obtain dev cid len where "decodeHeader b = Inr (dev, cid, len)"
    by (metis prod_cases3)
  then show ?thesis
    by (auto simp: resolve_def bind_err_def split: option.splits)
qed

lemma header_step_no_Throw: "header_step cmd s \<noteq> Throw e"
proof
  assume a: "header_step cmd s = Throw e"
  then have c: "currentPacketLength s = 0" and l: "16 \<le> length (rx s)"
    by (auto simp: header_step_def socket_read_def HEADER_SIZE_def split: if_splits)
  from l obtain t where
    "resolve cmd (s\<lparr>rx := drop 16 (rx s), currentPacketLength := 0\<rparr>) (take 16 (rx s)) = Inr t"
    using resolve_total [of "take 16 (rx s)"] by auto
  with a c l show False
    by (auto simp: header_step_def socket_read_def HEADER_SIZE_def Let_def readUInt32LE_def
        split: if_splits sum.splits list.splits)
qed

lemma header_step_armed:
  "header_step cmd s = Continue t \<Longrightarrow> armed s \<Longrightarrow> armed t"
  by (auto simp: header_step_def socket_read_def HEADER_SIZE_def Let_def armed_def
      dest: resolve_keeps split: if_splits sum.splits list.splits option.splits)

lemma payload_step_no_Throw:
  assumes "armed s" and "currentPacketLength s \<le> 2 ^ 30"
  shows "payload_step cmd s \<noteq> Throw e"
proof
  assume a: "payload_step cmd s = Throw e"
  with assms(2) have c: "0 < currentPacketLength s"
    and l: "currentPacketLength s \<le> length (rx s)"
    by (auto simp: payload_step_def socket_read_def split: if_splits)
  from a c assms(2) obtain r rs where r: "resolver s = r # rs"
    by (cases "resolver s") (auto simp: payload_step_def socket_read_def Let_def split: if_splits)
  with assms(1) c obtain hdr where h: "header r = Some hdr" "length hdr = 16"
    by (auto simp: armed_def HEADER_SIZE_def split: option.splits)
  obtain t where
    "resolve cmd (s\<lparr>rx := drop (currentPacketLength s) (rx s), currentPacketLength := 0\<rparr>)
       (hdr @ take (currentPacketLength s) (rx s)) = Inr t"
    using resolve_total [of "hdr @ take (currentPacketLength s) (rx s)"] h by auto
  with a c l r h assms(2) show False
    by (auto simp: payload_step_def socket_read_def Let_def split: if_splits)
qed

lemma payload_step_armed:
  "payload_step cmd s = Continue t \<Longrightarrow> armed s \<Longrightarrow> armed t"
  by (auto simp: payload_step_def socket_read_def Let_def armed_def
      dest: resolve_keeps split: if_splits sum.splits list.splits option.splits)

lemma drain_returns:
  "armed s \<Longrightarrow> framed (currentPacketLength s) (rx s @ ys) \<Longrightarrow>
     \<exists>t. drain cmd s = Inr t \<and> armed t"
proof (induction cmd s rule: drain.induct)
  case (1 cmd s)
  show ?case
  proof (cases "header_step cmd s")
    case (Return u)
    then have "u = s \<or> currentPacketLength u = 0"
      by (auto simp: header_step_def socket_read_def Let_def
          split: if_splits option.splits sum.splits list.splits)
    with "1.prems"(1) have "armed u" by (auto simp: armed_def)
    with Return show ?thesis by (simp add: drain.simps)
  next
    case (Throw e)
    with header_step_no_Throw show ?thesis by blast
  next
    case h: (Continue s1)
    note a1 = header_step_armed [OF h "1.prems"(1)]
    note f1 = header_step_framed [OF h "1.prems"(2)]
    show ?thesis
    proof (cases "payload_step cmd s1")
      case (Return u)
      with payload_step_Return [OF Return] a1 h show ?thesis by (simp add: drain.simps)
    next
      case (Throw e)
      with payload_step_no_Throw [OF a1 framed_bound [OF f1]] show ?thesis by blast
    next
      case p: (Continue s2)
      from "1.IH" [OF h p payload_step_armed [OF p a1] payload_step_framed [OF p f1]] h p
      show ?thesis by (simp add: drain.simps)
    qed
  qed
qed


lemma deliver_feed:
  assumes "starved s" and "framed (currentPacketLength s) (rx s @ concat cs)"
  shows "deliver cmd s cs = readable cmd s (concat cs)"
  using assms
proof (induction cs arbitrary: s)
  case Nil
  from Nil(2) have "currentPacketLength s \<le> 2 ^ 30" by (rule framed_bound)
  with Nil(1) show ?case by (simp add: readable_def starved_drain)
next
  case (Cons c cs)
  let ?s = "s\<lparr>rx := rx s @ c\<rparr>"
  from Cons.prems(2) have f: "framed (currentPacketLength ?s) (rx ?s @ concat cs)" by simp
  have "deliver cmd s (c # cs) = bind_err (drain cmd ?s) (\<lambda>t. deliver cmd t cs)"
    by (simp add: readable_def)
  also have "\<dots> = bind_err (drain cmd ?s) (\<lambda>t. drain cmd (t\<lparr>rx := rx t @ concat cs\<rparr>))"
  proof (cases "drain cmd ?s")
    case (Inl e)
    then show ?thesis by (simp add: bind_err_def)
  next
    case (Inr t)
    from drain_starved [OF f Inr] Cons.IH [of t] have "deliver cmd t cs = readable cmd t (concat cs)"
      by simp
    with Inr show ?thesis by (simp add: bind_err_def readable_def)
  qed
  also from drain_feed [OF f, of cmd] have "\<dots> = drain cmd (?s\<lparr>rx := rx ?s @ concat cs\<rparr>)"
    by simp
  finally show ?case by (simp add: readable_def)
qed

lemma deliver_starved:
  assumes "starved s" and "framed (currentPacketLength s) (rx s @ concat cs @ ys)"
    and "deliver cmd s cs = Inr t"
  shows "starved t"
  using assms
proof (induction cs arbitrary: s)
  case Nil
  then show ?case by simp
next
  case (Cons c cs)
  let ?s = "s\<lparr>rx := rx s @ c\<rparr>"
  from Cons.prems(2) have f: "framed (currentPacketLength ?s) (rx ?s @ concat cs @ ys)" by simp
  from Cons.prems(3) obtain u where u: "drain cmd ?s = Inr u" and d: "deliver cmd u cs = Inr t"
    by (auto simp: readable_def bind_err_def split: sum.splits)
  from drain_starved [OF f u] Cons.IH [OF _ _ d] show ?case by simp
qed

text \<open>
  A stream of whole packets, none with a payload of more than 1 GiB, cut into chunks
  in any way (empty chunks included) and delivered one chunk per notification to a
  client that has nothing buffered and awaits a header, with nothing else done to the
  client in between: the client ends in the same state, trace of fulfilled promises
  and emitted events included, as when the whole stream arrives in one notification;
  the handler returns without throwing; and after every notification the buffer holds
  less than the next header or payload, that is, every packet that was complete has
  been taken out.
\<close>

lemma chunking_untouched:
  assumes "stream ps = Inr bytes" and "concat chunks = bytes"
    and "rx s = []" and "currentPacketLength s = 0"
    and "\<forall>(cid, buffer, dev)\<in>set ps. length buffer \<le> 2 ^ 30"
  shows "deliver cmd s chunks = readable cmd s bytes \<and>
         (\<exists>t. readable cmd s bytes = Inr t) \<and>
         (\<forall>n t. n \<le> length chunks \<and> deliver cmd s (take n chunks) = Inr t \<longrightarrow> starved t)"
proof (intro conjI allI impI)
  from assms(3,4) have st: "starved s" by (simp add: starved_def HEADER_SIZE_def)
  from stream_framed [OF assms(1,5)] assms(2-4)
  have fr: "framed (currentPacketLength s) (rx s @ concat chunks)" by simp
  from deliver_feed [OF st fr] assms(2) show "deliver cmd s chunks = readable cmd s bytes" by simp
  from assms(4) have ar: "armed (s\<lparr>rx := rx s @ bytes\<rparr>)" by (simp add: armed_def)
  from fr assms(2)
  have "framed (currentPacketLength (s\<lparr>rx := rx s @ bytes\<rparr>)) (rx (s\<lparr>rx := rx s @ bytes\<rparr>) @ [])"
    by simp
  from drain_returns [OF ar this] show "\<exists>t. readable cmd s bytes = Inr t"
    by (auto simp: readable_def)
  fix n t
  assume a: "n \<le> length chunks \<and> deliver cmd s (take n chunks) = Inr t"
  have "concat chunks = concat (take n chunks) @ concat (drop n chunks)"
    by (metis append_take_drop_id concat_append)
  with fr have "framed (currentPacketLength s) (rx s @ concat (take n chunks) @ concat (drop n chunks))"
    by simp
  from deliver_starved [OF st this, of cmd t] a show "starved t" by blast
qed

text \<open>
  Two packets, the first with four bytes of payload, cut into four chunks of which
  one is empty, with two requests pending: the first request is fulfilled, the
  broadcast announced, the second request stays pending.
\<close>

lemma chunking_untouched_example:
  "deliver openrgb
     ((new_Client [] default_settings)
        \<lparr>isConnected := True, socket := True,
         resolver := [\<lparr>commandId = 1, deviceId = 0, header = None, resolveFn = 0\<rparr>,
                      \<lparr>commandId = 2, deviceId = 0, header = None, resolveFn = 1\<rparr>]\<rparr>)
     [[0x4f, 0x52, 0x47, 0x42, 0], [0, 0, 0, 1, 0, 0, 0, 4, 0, 0, 0, 3, 0], [],
      [0, 0, 0x4f, 0x52, 0x47, 0x42, 0, 0, 0, 0, 100, 0, 0, 0, 0, 0, 0, 0]] =
     Inr ((new_Client [] default_settings)
        \<lparr>isConnected := True, socket := True,
         resolver := [\<lparr>commandId = 2, deviceId = 0, header = None, resolveFn = 1\<rparr>],
         events := [Fulfilled 0 [3, 0, 0, 0], Emit ''deviceListUpdated'']\<rparr>)"
proof -
  let ?ps = "[(1, [3, 0, 0, 0], 0), (100, [], 0)] :: (nat \<times> byte list \<times> nat) list"
  let ?bytes = "[0x4f, 0x52, 0x47, 0x42, 0, 0, 0, 0, 1, 0, 0, 0, 4, 0, 0, 0, 3, 0, 0, 0,
      0x4f, 0x52, 0x47, 0x42, 0, 0, 0, 0, 100, 0, 0, 0, 0, 0, 0, 0] :: byte list"
  let ?chunks = "[[0x4f, 0x52, 0x47, 0x42, 0], [0, 0, 0, 1, 0, 0, 0, 4, 0, 0, 0, 3, 0], [],
      [0, 0, 0x4f, 0x52, 0x47, 0x42, 0, 0, 0, 0, 100, 0, 0, 0, 0, 0, 0, 0]] :: byte list list"
  let ?s = "(new_Client [] default_settings)
        \<lparr>isConnected := True, socket := True,
         resolver := [\<lparr>commandId = 1, deviceId = 0, header = None, resolveFn = 0\<rparr>,
                      \<lparr>commandId = 2, deviceId = 0, header = None, resolveFn = 1\<rparr>]\<rparr>"
  have h1: "stream ?ps = Inr ?bytes"
    by (simp add: packet_def encodeHeader_def writeUInt32LE_def bind_err_def magic_def le_bytes_4)
  have h2: "concat ?chunks = ?bytes" by simp
  have h3: "rx ?s = []" and h4: "currentPacketLength ?s = 0"
    by (simp_all add: new_Client_def)
  have h5: "\<forall>(cid, buffer, dev)\<in>set ?ps. length buffer \<le> 2 ^ 30" by simp
  from chunking_untouched [OF h1 h2 h3 h4 h5, of openrgb]
  have "deliver openrgb ?s ?chunks = readable openrgb ?s ?bytes" by blast
  moreover have "readable openrgb ?s ?bytes =
     Inr ((new_Client [] default_settings)
        \<lparr>isConnected := True, socket := True,
         resolver := [\<lparr>commandId = 2, deviceId = 0, header = None, resolveFn = 1\<rparr>],
         events := [Fulfilled 0 [3, 0, 0, 0], Emit ''deviceListUpdated'']\<rparr>)"
    by (simp add: readable_def new_Client_def drain.simps header_step_def payload_step_def
        socket_read_def HEADER_SIZE_def slice_buf_def magic_def readUInt32LE_def resolve_def
        decodeHeader_def bind_err_def openrgb_def)
  ultimately show ?thesis by simp
qed

text \<open>
  \<open>resolve\<close> announces a broadcast packet whatever the queue holds and leaves the
  queue as it is.
\<close>

lemma resolve_broadcast:
  assumes "decodeHeader buffer = Inr (dev, deviceListUpdated cmd, len)"
  shows "resolve cmd s buffer = Inr (s\<lparr>events := events s @ [Emit ''deviceListUpdated'']\<rparr>)"
  using assms by (simp add: resolve_def bind_err_def)

text \<open>
  Whenever a header is due and the next 16 bytes do not start with the magic, the
  handler takes those 16 bytes out and returns, whatever follows them.
\<close>

lemma bad_magic_returns:
  assumes "currentPacketLength s = 0" and "16 \<le> length (rx s @ chunk)"
    and "take 4 (rx s @ chunk) \<noteq> magic"
  shows "readable cmd s chunk = Inr (s\<lparr>rx := drop 16 (rx s @ chunk)\<rparr>)"
proof -
  define buf where "buf = rx s @ chunk"
  from assms have b: "16 \<le> length buf" "take 4 buf \<noteq> magic"
    by (simp_all add: buf_def)
  then have "slice_buf (take 16 buf) 0 4 \<noteq> magic"
    by (simp add: slice_buf_def min_def)
  with assms(1) b have "header_step cmd (s\<lparr>rx := buf\<rparr>) = Return (s\<lparr>rx := drop 16 buf\<rparr>)"
    by (simp add: header_step_def socket_read_def HEADER_SIZE_def)
  then show ?thesis
    unfolding readable_def buf_def [symmetric] by (simp add: drain.simps)
qed

text \<open>
  While no request is pending, a packet without payload, the broadcast included, is
  taken out of the buffer and nothing else happens.
\<close>

lemma idle_drops_header_only:
  assumes "resolver s = []" and "currentPacketLength s = 0" and "rx s = []"
    and "packet cid [] dev = Inr p"
  shows "readable cmd s p = Inr s"
proof -
  from packet_shape [OF assms(4)]
  have p: "p = magic @ le_bytes 4 dev @ le_bytes 4 cid @ le_bytes 4 0" by simp
  then have l: "length p = 16" by (simp add: magic_def)
  have z: "le_nat (le_bytes 4 0) = 0" by (simp add: le_bytes_4)
  have "slice_buf p 12 16 = le_bytes 4 0" by (simp add: p slice_buf_def magic_def)
  with z l have len: "readUInt32LE p 12 = Inr 0" by (simp add: readUInt32LE_def)
  have m: "slice_buf p 0 4 = magic" by (simp add: p slice_buf_def magic_def)
  let ?s = "s\<lparr>rx := rx s @ p\<rparr>"
  from assms(1-3) l len m have h: "header_step cmd ?s = Continue s"
    by (simp add: header_step_def socket_read_def HEADER_SIZE_def Let_def)
  from assms(2) have "payload_step cmd s = Continue s" by (simp add: payload_step_def)
  moreover from assms(2,3) have "drain cmd s = Inr s"
    by (intro starved_drain) (simp_all add: starved_def HEADER_SIZE_def)
  ultimately show ?thesis using h by (simp add: readable_def drain.simps [of cmd ?s])
qed

lemmas handler_defs =
  readable_def new_Client_def drain.simps header_step_def payload_step_def
  socket_read_def HEADER_SIZE_def slice_buf_def magic_def readUInt32LE_def resolve_def
  decodeHeader_def bind_err_def openrgb_def

text \<open>
  Claim C1. The header of a packet with a payload is kept on the first entry of the
  queue of pending requests, not in the handler's own state. A header that arrives
  while the queue is empty is therefore kept nowhere; when a request is registered
  before the payload's notification, the handler finds a first entry without header
  and throws a \<open>TypeError\<close> out of \<open>Buffer.concat\<close>. The same packet arriving in
  one notification cannot throw: registered before, the request is fulfilled;
  registered after, the packet is dropped and the request stays pending. Cut in two
  with the request registered before the header, the packet fulfils the request too.
  A header that announces more than 1 GiB of payload makes the handler throw a
  \<open>RangeError\<close> out of \<open>socket.read\<close>.
\<close>

theorem registration_between_chunks_throws:
  "run openrgb ((new_Client [] default_settings)\<lparr>isConnected := True, socket := True\<rparr>)
     [Readable [0x4f, 0x52, 0x47, 0x42, 0, 0, 0, 0, 1, 0, 0, 0, 4, 0, 0, 0],
      ReadMessage 1 0,
      Readable [3, 0, 0, 0]] = Inl TypeError \<and>
   run openrgb ((new_Client [] default_settings)\<lparr>isConnected := True, socket := True\<rparr>)
     [ReadMessage 1 0,
      Readable [0x4f, 0x52, 0x47, 0x42, 0, 0, 0, 0, 1, 0, 0, 0, 4, 0, 0, 0, 3, 0, 0, 0]] =
     Inr ((new_Client [] default_settings)
        \<lparr>isConnected := True, socket := True,
         events := [Fulfilled 0 [3, 0, 0, 0]],
         promises := 1\<rparr>) \<and>
   run openrgb ((new_Client [] default_settings)\<lparr>isConnected := True, socket := True\<rparr>)
     [Readable [0x4f, 0x52, 0x47, 0x42, 0, 0, 0, 0, 1, 0, 0, 0, 4, 0, 0, 0, 3, 0, 0, 0],
      ReadMessage 1 0] =
     Inr ((new_Client [] default_settings)
        \<lparr>isConnected := True, socket := True,
         resolver := [\<lparr>commandId = 1, deviceId = 0, header = None, resolveFn = 0\<rparr>],
         promises := 1\<rparr>) \<and>
   run openrgb ((new_Client [] default_settings)\<lparr>isConnected := True, socket := True\<rparr>)
     [ReadMessage 1 0,
      Readable [0x4f, 0x52, 0x47, 0x42, 0, 0, 0, 0, 1, 0, 0, 0, 4, 0, 0, 0],
      Readable [3, 0, 0, 0]] =
     Inr ((new_Client [] default_settings)
        \<lparr>isConnected := True, socket := True,
         events := [Fulfilled 0 [3, 0, 0, 0]],
         promises := 1\<rparr>) \<and>
   readable openrgb ((new_Client [] default_settings)\<lparr>isConnected := True, socket := True\<rparr>)
     [0x4f, 0x52, 0x47, 0x42, 0, 0, 0, 0, 1, 0, 0, 0, 1, 0, 0, 0x40] = Inl RangeError"
  by (simp add: handler_defs readMessage_def)

text \<open>
  Claim C4. A header whose first byte is not that of the magic, followed in the same
  notification by a whole packet that answers the pending request: the handler takes
  the 16 bad bytes out and returns. The packet stays in the socket's buffer, the
  request stays pending, no event is emitted and the client still counts as connected.
  The same packet arriving alone fulfils the request.
\<close>

theorem bad_magic_stalls:
  "readable openrgb
     ((new_Client [] default_settings)
        \<lparr>isConnected := True, socket := True,
         resolver := [\<lparr>commandId = 1, deviceId = 0, header = None, resolveFn = 0\<rparr>]\<rparr>)
     ([0x58, 0x52, 0x47, 0x42, 0, 0, 0, 0, 1, 0, 0, 0, 0, 0, 0, 0] @
      [0x4f, 0x52, 0x47, 0x42, 0, 0, 0, 0, 1, 0, 0, 0, 0, 0, 0, 0]) =
     Inr ((new_Client [] default_settings)
        \<lparr>isConnected := True, socket := True,
         resolver := [\<lparr>commandId = 1, deviceId = 0, header = None, resolveFn = 0\<rparr>],
         rx := [0x4f, 0x52, 0x47, 0x42, 0, 0, 0, 0, 1, 0, 0, 0, 0, 0, 0, 0]\<rparr>) \<and>
   readable openrgb
     ((new_Client [] default_settings)
        \<lparr>isConnected := True, socket := True,
         resolver := [\<lparr>commandId = 1, deviceId = 0, header = None, resolveFn = 0\<rparr>]\<rparr>)
     [0x4f, 0x52, 0x47, 0x42, 0, 0, 0, 0, 1, 0, 0, 0, 0, 0, 0, 0] =
     Inr ((new_Client [] default_settings)
        \<lparr>isConnected := True, socket := True, events := [Fulfilled 0 []]\<rparr>)"
  by (simp add: handler_defs)

text \<open>
  Claim C6. The broadcast packet (command identifier \<open>deviceListUpdated\<close>, no payload)
  arriving while no request is pending: the handler takes it out of the buffer and
  emits nothing, since it calls \<open>resolve\<close> only when the queue has an entry. With one
  request pending the event is emitted and the queue is left as it was.
\<close>

theorem broadcast_dropped_when_idle:
  "readable openrgb
     ((new_Client [] default_settings)\<lparr>isConnected := True, socket := True\<rparr>)
     [0x4f, 0x52, 0x47, 0x42, 0, 0, 0, 0, 100, 0, 0, 0, 0, 0, 0, 0] =
     Inr ((new_Client [] default_settings)\<lparr>isConnected := True, socket := True\<rparr>) \<and>
   readable openrgb
     ((new_Client [] default_settings)
        \<lparr>isConnected := True, socket := True,
         resolver := [\<lparr>commandId = 1, deviceId = 0, header = None, resolveFn = 0\<rparr>]\<rparr>)
     [0x4f, 0x52, 0x47, 0x42, 0, 0, 0, 0, 100, 0, 0, 0, 0, 0, 0, 0] =
     Inr ((new_Client [] default_settings)
        \<lparr>isConnected := True, socket := True,
         resolver := [\<lparr>commandId = 1, deviceId = 0, header = None, resolveFn = 0\<rparr>],
         events := [Emit ''deviceListUpdated'']\<rparr>)"
  by (simp add: handler_defs)

section \<open>The negotiation\<close>

lemmas connect_defs =
  connect_negotiated_def setClientName_call_def sendMessage_def packet_def encodeHeader_def
  writeUInt32LE_def bind_err_def negotiate_def serverProtocolVersion_def clientVersion_def
  truthy_def CLIENT_PROTOCOL_VERSION_def default_settings_def new_Client_def openrgb_def
  magic_def le_bytes_4

text \<open>
  Where the chosen version is the smaller of the server's and the preferred one: the
  key is absent, or the override and the server's version are both other than 0.
\<close>

lemma negotiate_min:
  assumes "forceProtocolVersion st = Absent \<or>
           (\<exists>n. forceProtocolVersion st = Number n \<and> n \<noteq> 0 \<and> server \<noteq> 0)"
  shows "negotiate st server =
           Some (min server (case forceProtocolVersion st of
                               Number n \<Rightarrow> n | _ \<Rightarrow> CLIENT_PROTOCOL_VERSION))"
  using assms by (auto simp: negotiate_def truthy_def clientVersion_def min_def)

text \<open>With the default settings the chosen version is 0 whatever the server answers.\<close>

lemma negotiate_default: "negotiate default_settings (int v) = Some 0"
  by (simp add: negotiate_def default_settings_def truthy_def clientVersion_def)

text \<open>
  Claim C2. With the settings the constructor supplies by default the key
  \<open>forceProtocolVersion\<close> is present with the value 0, so the version the client
  prefers is 0 and not \<open>CLIENT_PROTOCOL_VERSION\<close>: a server that answers 4 in time
  leaves the client at protocol version 0.
\<close>

theorem default_settings_pin_version_zero:
  "clientVersion default_settings = Some 0 \<and>
   negotiate default_settings (serverProtocolVersion (Reply 4)) = Some 0 \<and>
   connect_negotiated openrgb
     ((new_Client [] default_settings)\<lparr>isConnected := True, socket := True\<rparr>) (Reply 4) =
     Inr ((new_Client [] default_settings)
        \<lparr>isConnected := True, socket := True, protocolVersion := Some 0,
         events :=
           [Written [0x4f, 0x52, 0x47, 0x42, 0, 0, 0, 0, 50, 0, 0, 0, 7, 0, 0, 0,
                     0x6e, 0x6f, 0x64, 0x65, 0x6a, 0x73, 0],
            Emit ''connect'']\<rparr>)"
  by (simp add: connect_defs)

text \<open>
  Claim C3, as stated, fails: when the version request times out and no override is
  configured, \<open>connect\<close> does not fail. It sets the version to 0, sends the client's
  name and emits \<open>connect\<close>.
\<close>

theorem timeout_connects_counterexample:
  "connect_negotiated openrgb
     ((new_Client [] \<lparr>forceProtocolVersion = Absent\<rparr>)\<lparr>isConnected := True, socket := True\<rparr>)
     Timeout =
     Inr ((new_Client [] \<lparr>forceProtocolVersion = Absent\<rparr>)
        \<lparr>isConnected := True, socket := True, protocolVersion := Some 0,
         events :=
           [Written [0x4f, 0x52, 0x47, 0x42, 0, 0, 0, 0, 50, 0, 0, 0, 7, 0, 0, 0,
                     0x6e, 0x6f, 0x64, 0x65, 0x6a, 0x73, 0],
            Emit ''connect'']\<rparr>)"
  by (simp add: connect_defs)

text \<open>
  Claim C3, amended. For every client that has its socket, whose settings carry no
  override (the key is absent, \<open>undefined\<close> or 0) and whose name with its terminator
  fits a packet, a version request that times out never surfaces as such. If the
  client still counts as connected when the wait ends, \<open>connect\<close> completes: the
  protocol version becomes 0 (it stays \<open>undefined\<close> when the key is present with the
  value \<open>undefined\<close>), the client's name is written to the socket and \<open>connect\<close> is
  emitted. If the socket was closed or failed during the wait, so that the client no
  longer counts as connected, \<open>connect\<close> is rejected with the error \<open>sendMessage\<close>
  throws for a client that is not connected; nothing is written and \<open>connect\<close> is not
  emitted.
\<close>

theorem timeout_connects_version_zero:
  assumes "\<not> truthy (forceProtocolVersion (settings s))"
    and "socket s"
    and "packet (setClientName cmd) (name s @ [0x00]) 0 = Inr p"
  shows "connect_negotiated cmd s Timeout =
           (if isConnected s
            then Inr (s\<lparr>protocolVersion :=
                         (if forceProtocolVersion (settings s) = Undefined then None else Some 0),
                       events := events s @ [Written p, Emit ''connect'']\<rparr>)
            else Inl NotConnected)"
  using assms
  by (cases "forceProtocolVersion (settings s)")
     (simp_all add: connect_negotiated_def setClientName_call_def sendMessage_def bind_err_def
        negotiate_def serverProtocolVersion_def clientVersion_def truthy_def
        CLIENT_PROTOCOL_VERSION_def)

theorem timeout_connects_version_zero_witness:
  "\<not> truthy (forceProtocolVersion (settings
        ((new_Client [] default_settings)\<lparr>isConnected := True, socket := True\<rparr>))) \<and>
   connect_negotiated openrgb
     ((new_Client [] default_settings)\<lparr>isConnected := True, socket := True\<rparr>) Timeout =
     Inr ((new_Client [] default_settings)
        \<lparr>isConnected := True, socket := True, protocolVersion := Some 0,
         events :=
           [Written [0x4f, 0x52, 0x47, 0x42, 0, 0, 0, 0, 50, 0, 0, 0, 7, 0, 0, 0,
                     0x6e, 0x6f, 0x64, 0x65, 0x6a, 0x73, 0],
            Emit ''connect'']\<rparr>) \<and>
   connect_negotiated openrgb
     (closed ((new_Client [] default_settings)\<lparr>isConnected := True, socket := True\<rparr>)) Timeout =
     Inl NotConnected"
proof -
  let ?s = "(new_Client [] default_settings)\<lparr>isConnected := True, socket := True\<rparr>"
  let ?p = "[0x4f, 0x52, 0x47, 0x42, 0, 0, 0, 0, 50, 0, 0, 0, 7, 0, 0, 0,
             0x6e, 0x6f, 0x64, 0x65, 0x6a, 0x73, 0] :: byte list"
  have h1: "\<not> truthy (forceProtocolVersion (settings ?s))"
    by (simp add: truthy_def new_Client_def default_settings_def)
  have h2: "socket ?s" by (simp add: new_Client_def)
  have h3: "packet (setClientName openrgb) (name ?s @ [0x00]) 0 = Inr ?p"
    by (simp add: connect_defs)
  have c1: "\<not> truthy (forceProtocolVersion (settings (closed ?s)))"
    by (simp add: truthy_def new_Client_def default_settings_def closed_def)
  have c2: "socket (closed ?s)" by (simp add: new_Client_def closed_def)
  have c3: "packet (setClientName openrgb) (name (closed ?s) @ [0x00]) 0 = Inr ?p"
    by (simp add: connect_defs closed_def)
  from timeout_connects_version_zero [OF h1 h2 h3] timeout_connects_version_zero [OF c1 c2 c3] h1
  show ?thesis
    by (simp add: new_Client_def default_settings_def closed_def)
qed

section \<open>Disconnecting\<close>

lemma quiet_refl: "unheard X s \<Longrightarrow> quiet X s s"
  by (simp add: quiet_def silent_def)

lemma quiet_trans: "quiet X s t \<Longrightarrow> quiet X t u \<Longrightarrow> quiet X s u"
  by (auto simp: quiet_def silent_def)

lemma quiet_unheard: "quiet X s t \<Longrightarrow> unheard X t"
  by (simp add: quiet_def)

lemma resolve_quiet:
  assumes "unheard X s" and "resolve cmd s b = Inr t"
  shows "quiet X s t"
proof -
  obtain dev cid len where d: "decodeHeader b = Inr (dev, cid, len)"
    using assms(2) by (auto simp: resolve_def bind_err_def split: sum.splits)
  show ?thesis
  proof (cases "findIndex (\<lambda>r. deviceId r = dev \<and> commandId r = cid) (resolver s)")
    case None
    with assms d show ?thesis
      by (auto simp: resolve_def bind_err_def quiet_def unheard_def silent_def split: if_splits)
  next
    case (Some i)
    then have i: "i < length (resolver s)" by (simp add: findIndex_Some)
    then have "resolver s ! i \<in> set (resolver s)" by simp
    with assms(1) have out: "resolveFn (resolver s ! i) \<notin> X" by (simp add: unheard_def)
    from assms(2) d Some
    have "t = s\<lparr>events := events s @ [Emit ''deviceListUpdated'']\<rparr> \<or>
          t = s\<lparr>resolver := take i (resolver s) @ drop (Suc i) (resolver s),
                events := events s @ [Fulfilled (resolveFn (resolver s ! i)) (drop 16 b)]\<rparr>"
      by (auto simp: resolve_def bind_err_def split: if_splits)
    moreover from assms(1)
    have "\<forall>r\<in>set (take i (resolver s) @ drop (Suc i) (resolver s)). resolveFn r \<notin> X"
      unfolding unheard_def set_append by (meson UnE in_set_takeD in_set_dropD)
    ultimately show ?thesis
      using assms(1) out by (auto simp: quiet_def unheard_def silent_def)
  qed
qed

lemma unheard_update [simp]:
  "unheard X (s\<lparr>rx := x\<rparr>) = unheard X s"
  "unheard X (s\<lparr>currentPacketLength := n\<rparr>) = unheard X s"
  "unheard X (s\<lparr>isConnected := b\<rparr>) = unheard X s"
  "unheard X (s\<lparr>socket := b\<rparr>) = unheard X s"
  "unheard X (s\<lparr>events := es\<rparr>) = unheard X s"
  by (simp_all add: unheard_def)

lemma quiet_update [simp]:
  "quiet X (s\<lparr>rx := x\<rparr>) t = quiet X s t"
  "quiet X (s\<lparr>currentPacketLength := n\<rparr>) t = quiet X s t"
  "quiet X (s\<lparr>isConnected := b\<rparr>) t = quiet X s t"
  "quiet X (s\<lparr>socket := b\<rparr>) t = quiet X s t"
  by (simp_all add: quiet_def)

lemma header_step_quiet:
  assumes "unheard X s" and "header_step cmd s = Continue t \<or> header_step cmd s = Return t"
  shows "quiet X s t"
proof (cases "currentPacketLength s = 0 \<and> HEADER_SIZE \<le> length (rx s)")
  case False
  with assms show ?thesis
    by (auto simp: header_step_def socket_read_def quiet_refl HEADER_SIZE_def split: if_splits)
next
  case True
  let ?hdr = "take HEADER_SIZE (rx s)" and ?rest = "drop HEADER_SIZE (rx s)"
  show ?thesis
  proof (cases "slice_buf ?hdr 0 4 = magic")
    case False
    with True assms have "t = s\<lparr>rx := ?rest\<rparr>"
      by (auto simp: header_step_def socket_read_def HEADER_SIZE_def)
    with assms(1) show ?thesis by (simp add: quiet_def silent_def)
  next
    case m: True
    from True obtain len where len: "readUInt32LE ?hdr 12 = Inr len"
      by (auto simp: readUInt32LE_def HEADER_SIZE_def)
    let ?s1 = "s\<lparr>rx := ?rest, currentPacketLength := len\<rparr>"
    show ?thesis
    proof (cases "0 < len")
      case pos: True
      show ?thesis
      proof (cases "resolver s")
        case Nil
        with True m len pos assms(2) have "t = ?s1"
          by (auto simp: header_step_def socket_read_def HEADER_SIZE_def Let_def)
        with assms(1) show ?thesis by (simp add: quiet_def silent_def)
      next
        case (Cons r rs)
        with True m len pos assms(2) have "t = ?s1\<lparr>resolver := r\<lparr>header := Some ?hdr\<rparr> # rs\<rparr>"
          by (auto simp: header_step_def socket_read_def HEADER_SIZE_def Let_def)
        with assms(1) Cons show ?thesis by (simp add: quiet_def silent_def unheard_def)
      qed
    next
      case zero: False
      show ?thesis
      proof (cases "resolver s = []")
        case True
        with \<open>currentPacketLength s = 0 \<and> HEADER_SIZE \<le> length (rx s)\<close> m len zero assms(2)
        have "t = ?s1"
          by (auto simp: header_step_def socket_read_def HEADER_SIZE_def Let_def)
        with assms(1) show ?thesis by (simp add: quiet_def silent_def)
      next
        case False
        with True m len zero assms(2) have "resolve cmd ?s1 ?hdr = Inr t"
          by (auto simp: header_step_def socket_read_def HEADER_SIZE_def Let_def split: sum.splits)
        from resolve_quiet [OF _ this, of X] assms(1) show ?thesis by simp
      qed
    qed
  qed
qed

lemma payload_step_quiet:
  assumes "unheard X s" and "payload_step cmd s = Continue t \<or> payload_step cmd s = Return t"
  shows "quiet X s t"
proof (cases "0 < currentPacketLength s \<and> currentPacketLength s \<le> length (rx s) \<and>
    currentPacketLength s \<le> 2 ^ 30")
  case False
  with assms show ?thesis
    by (auto simp: payload_step_def socket_read_def quiet_refl split: if_splits)
next
  case True
  let ?res = "take (currentPacketLength s) (rx s)"
  let ?s1 = "s\<lparr>rx := drop (currentPacketLength s) (rx s), currentPacketLength := 0\<rparr>"
  show ?thesis
  proof (cases "resolver s")
    case Nil
    with True assms(2) have "t = ?s1"
      by (auto simp: payload_step_def socket_read_def Let_def)
    with assms(1) show ?thesis by (simp add: quiet_def silent_def)
  next
    case (Cons r rs)
    with True assms(2) obtain hdr where "resolve cmd ?s1 (hdr @ ?res) = Inr t"
      by (auto simp: payload_step_def socket_read_def Let_def split: option.splits sum.splits)
    from resolve_quiet [OF _ this, of X] assms(1) show ?thesis by simp
  qed
qed

lemma drain_quiet: "unheard X s \<Longrightarrow> drain cmd s = Inr t \<Longrightarrow> quiet X s t"
proof (induction cmd s rule: drain.induct)
  case (1 cmd s)
  show ?case
  proof (cases "header_step cmd s")
    case (Return u)
    with "1.prems" header_step_quiet [of X s cmd u] show ?thesis by (simp add: drain.simps)
  next
    case (Throw e)
    with "1.prems" show ?thesis by (simp add: drain.simps)
  next
    case h: (Continue s1)
    from header_step_quiet [of X s cmd s1] h "1.prems"(1) have q1: "quiet X s s1" by simp
    show ?thesis
    proof (cases "payload_step cmd s1")
      case (Return u)
      with h "1.prems"(2) have "u = t" by (simp add: drain.simps)
      with Return payload_step_quiet [of X s1 cmd t] quiet_unheard [OF q1] quiet_trans [OF q1]
      show ?thesis by simp
    next
      case (Throw e)
      with h "1.prems" show ?thesis by (simp add: drain.simps)
    next
      case p: (Continue s2)
      from payload_step_quiet [of X s1 cmd s2] p quiet_unheard [OF q1] have q2: "quiet X s1 s2"
        by simp
      from h p "1.prems"(2) have "drain cmd s2 = Inr t" by (simp add: drain.simps)
      from "1.IH" [OF h p quiet_unheard [OF q2] this] quiet_trans [OF q1 q2] quiet_trans
      show ?thesis by blast
    qed
  qed
qed

lemma readable_quiet: "unheard X s \<Longrightarrow> readable cmd s chunk = Inr t \<Longrightarrow> quiet X s t"
  using drain_quiet [of X "s\<lparr>rx := rx s @ chunk\<rparr>" cmd t] by (simp add: readable_def)

lemma sendMessage_quiet: "unheard X s \<Longrightarrow> sendMessage s cid b dev = Inr t \<Longrightarrow> quiet X s t"
  by (auto simp: sendMessage_def bind_err_def quiet_def silent_def split: if_splits sum.splits)

lemma readMessage_quiet: "unheard X s \<Longrightarrow> readMessage s cid dev = Inr t \<Longrightarrow> quiet X s t"
  by (fastforce simp: readMessage_def quiet_def silent_def unheard_def split: if_splits)

lemma connect_opened_quiet:
  assumes "unheard X s" and "connect_opened cmd s = Inr t"
  shows "quiet X s t"
proof -
  let ?s0 = "s\<lparr>socket := True, rx := [], isConnected := True\<rparr>"
  from assms(2) obtain s1 where
    a: "sendMessage ?s0 (requestProtocolVersion cmd) (pack_I (clientVersion (settings ?s0))) 0 = Inr s1"
    and b: "readMessage s1 (requestProtocolVersion cmd) 0 = Inr t"
    by (auto simp: connect_opened_def getProtocolVersion_def bind_err_def split: sum.splits)
  from assms(1) have "unheard X ?s0" by simp
  from sendMessage_quiet [OF this a] have q: "quiet X s s1" by simp
  from readMessage_quiet [OF quiet_unheard [OF q] b] q show ?thesis by (rule quiet_trans [rotated])
qed

lemma disconnect_quiet: "unheard X s \<Longrightarrow> disconnect s = Inr t \<Longrightarrow> quiet X s t"
  by (auto simp: disconnect_def quiet_def silent_def unheard_def split: if_splits)

lemma closed_quiet: "unheard X s \<Longrightarrow> quiet X s (closed s)"
  by (auto simp: closed_def quiet_def silent_def unheard_def)

lemma errored_quiet: "unheard X s \<Longrightarrow> quiet X s (errored s)"
  by (auto simp: errored_def quiet_def silent_def unheard_def)

lemma run_quiet: "unheard X s \<Longrightarrow> run cmd s as = Inr u \<Longrightarrow> quiet X s u"
proof (induction as arbitrary: s)
  case Nil
  then show ?case by (simp add: quiet_refl)
next
  case (Cons a as)
  have step: "quiet X s u" if "quiet X s t" and "run cmd t as = Inr u" for t
    using that Cons.IH [of t] quiet_trans [of X s t u] quiet_unheard [of X s t] by blast
  show ?case
  proof (cases a)
    case (Readable chunk)
    with Cons.prems(2) obtain t where "readable cmd s chunk = Inr t" and "run cmd t as = Inr u"
      by (auto simp: bind_err_def split: sum.splits)
    with readable_quiet [OF Cons.prems(1)] step show ?thesis by blast
  next
    case (ReadMessage cid dev)
    show ?thesis
    proof (cases "readMessage s cid dev")
      case (Inl e)
      with ReadMessage Cons.prems step [OF quiet_refl] show ?thesis by simp
    next
      case (Inr t)
      with ReadMessage Cons.prems readMessage_quiet [of X s cid dev t] step show ?thesis by simp
    qed
  next
    case (SendMessage cid b dev)
    show ?thesis
    proof (cases "sendMessage s cid b dev")
      case (Inl e)
      with SendMessage Cons.prems step [OF quiet_refl] show ?thesis by simp
    next
      case (Inr t)
      with SendMessage Cons.prems sendMessage_quiet [of X s cid b dev t] step show ?thesis by simp
    qed
  next
    case Connect
    show ?thesis
    proof (cases "connect_opened cmd s")
      case (Inl e)
      with Connect Cons.prems step [OF quiet_refl] show ?thesis by simp
    next
      case (Inr t)
      with Connect Cons.prems connect_opened_quiet [of X s cmd t] step show ?thesis by simp
    qed
  next
    case Disconnect
    show ?thesis
    proof (cases "disconnect s")
      case (Inl e)
      with Disconnect Cons.prems step [OF quiet_refl] show ?thesis by simp
    next
      case (Inr t)
      with Disconnect Cons.prems disconnect_quiet [of X s t] step show ?thesis by simp
    qed
  next
    case Closed
    with Cons.prems closed_quiet [of X s] step show ?thesis by simp
  next
    case Failed
    with Cons.prems errored_quiet [of X s] step show ?thesis by simp
  qed
qed

text \<open>
  Claim C10. Take any client that has a socket, or has never been connected (then it
  is not connected and its queue is empty), and whose pending promises were created
  by \<open>readMessage\<close>. After a call of \<open>disconnect\<close>, whether it returns or throws for
  want of a socket, \<open>isConnected\<close> is false and the queue is empty; and whatever
  happens next (data arriving, requests sent or registered, reconnecting,
  disconnecting, the socket closing or failing), no promise that was pending at the call is
  ever fulfilled. The client has no means of rejecting a promise: \<open>readMessage\<close>
  keeps only the \<open>resolve\<close> callback.
\<close>

theorem disconnect_discards:
  assumes "socket s \<or> (\<not> isConnected s \<and> resolver s = [])"
    and "\<forall>r\<in>set (resolver s). resolveFn r < promises s"
  shows "\<forall>t. t = (case disconnect s of Inl e \<Rightarrow> s | Inr t' \<Rightarrow> t') \<longrightarrow>
           \<not> isConnected t \<and> resolver t = [] \<and>
           (\<forall>as u r p. run cmd t as = Inr u \<and> r \<in> set (resolver s) \<longrightarrow>
              Fulfilled (resolveFn r) p \<notin> set (drop (length (events t)) (events u)))"
proof (intro allI impI)
  fix t
  assume t: "t = (case disconnect s of Inl e \<Rightarrow> s | Inr t' \<Rightarrow> t')"
  let ?X = "resolveFn ` set (resolver s)"
  from t assms(1) have a: "\<not> isConnected t" and b: "resolver t = []" and c: "promises t = promises s"
    by (auto simp: disconnect_def)
  from b c assms(2) have un: "unheard ?X t" by (auto simp: unheard_def)
  have "Fulfilled (resolveFn r) p \<notin> set (drop (length (events t)) (events u))"
    if "run cmd t as = Inr u \<and> r \<in> set (resolver s)" for as u r p
  proof -
    from run_quiet [OF un, of cmd as u] that obtain new where "events u = events t @ new" and "silent ?X new"
      by (auto simp: quiet_def)
    with that show ?thesis by (auto simp: silent_def)
  qed
  with a b show "\<not> isConnected t \<and> resolver t = [] \<and>
           (\<forall>as u r p. run cmd t as = Inr u \<and> r \<in> set (resolver s) \<longrightarrow>
              Fulfilled (resolveFn r) p \<notin> set (drop (length (events t)) (events u)))"
    by blast
qed



lemmas run_defs =
  handler_defs connect_defs readMessage_def connect_opened_def getProtocolVersion_def
  pack_I_def disconnect_def

theorem disconnect_discards_witness:
  "disconnect
     ((new_Client [] default_settings)
        \<lparr>isConnected := True, socket := True,
         resolver := [\<lparr>commandId = 1, deviceId = 0, header = None, resolveFn = 0\<rparr>,
                      \<lparr>commandId = 2, deviceId = 0, header = None, resolveFn = 1\<rparr>],
         promises := 2\<rparr>) =
     Inr ((new_Client [] default_settings)
        \<lparr>isConnected := False, socket := True, events := [Ended], promises := 2\<rparr>) \<and>
   run openrgb
     ((new_Client [] default_settings)
        \<lparr>isConnected := False, socket := True, events := [Ended], promises := 2\<rparr>)
     [ReadMessage 1 0,
      Readable [0x4f, 0x52, 0x47, 0x42, 0, 0, 0, 0, 1, 0, 0, 0, 4, 0, 0, 0, 3, 0, 0, 0],
      Connect, ReadMessage 1 0,
      Readable [0x4f, 0x52, 0x47, 0x42, 0, 0, 0, 0, 1, 0, 0, 0, 4, 0, 0, 0, 3, 0, 0, 0]] =
     Inr ((new_Client [] default_settings)
        \<lparr>isConnected := True, socket := True,
         resolver :=
           [\<lparr>commandId = 40, deviceId = 0,
             header = Some [0x4f, 0x52, 0x47, 0x42, 0, 0, 0, 0, 1, 0, 0, 0, 4, 0, 0, 0],
             resolveFn = 2\<rparr>],
         events :=
           [Ended,
            Written [0x4f, 0x52, 0x47, 0x42, 0, 0, 0, 0, 40, 0, 0, 0, 4, 0, 0, 0, 0, 0, 0, 0],
            Fulfilled 3 [3, 0, 0, 0]],
         promises := 4\<rparr>) \<and>
   Fulfilled 0 [3, 0, 0, 0] \<notin> set (drop (length [Ended])
     [Ended,
      Written [0x4f, 0x52, 0x47, 0x42, 0, 0, 0, 0, 40, 0, 0, 0, 4, 0, 0, 0, 0, 0, 0, 0],
      Fulfilled 3 [3, 0, 0, 0]])"
proof -
  let ?e0 = "\<lparr>commandId = 1, deviceId = 0, header = None, resolveFn = 0\<rparr>"
  let ?s = "(new_Client [] default_settings)
        \<lparr>isConnected := True, socket := True,
         resolver := [?e0, \<lparr>commandId = 2, deviceId = 0, header = None, resolveFn = 1\<rparr>],
         promises := 2\<rparr>"
  let ?t = "(new_Client [] default_settings)
        \<lparr>isConnected := False, socket := True, events := [Ended], promises := 2\<rparr>"
  let ?as = "[ReadMessage 1 0,
      Readable [0x4f, 0x52, 0x47, 0x42, 0, 0, 0, 0, 1, 0, 0, 0, 4, 0, 0, 0, 3, 0, 0, 0],
      Connect, ReadMessage 1 0,
      Readable [0x4f, 0x52, 0x47, 0x42, 0, 0, 0, 0, 1, 0, 0, 0, 4, 0, 0, 0, 3, 0, 0, 0]]"
  let ?u = "(new_Client [] default_settings)
        \<lparr>isConnected := True, socket := True,
         resolver :=
           [\<lparr>commandId = 40, deviceId = 0,
             header = Some [0x4f, 0x52, 0x47, 0x42, 0, 0, 0, 0, 1, 0, 0, 0, 4, 0, 0, 0],
             resolveFn = 2\<rparr>],
         events :=
           [Ended,
            Written [0x4f, 0x52, 0x47, 0x42, 0, 0, 0, 0, 40, 0, 0, 0, 4, 0, 0, 0, 0, 0, 0, 0],
            Fulfilled 3 [3, 0, 0, 0]],
         promises := 4\<rparr>"
  have h1: "socket ?s \<or> (\<not> isConnected ?s \<and> resolver ?s = [])"
    by (simp add: new_Client_def)
  have h2: "\<forall>r\<in>set (resolver ?s). resolveFn r < promises ?s"
    by (simp add: new_Client_def)
  have d: "disconnect ?s = Inr ?t"
    by (simp add: disconnect_def new_Client_def)
  have r: "run openrgb ?t ?as = Inr ?u"
    by (simp add: run_defs)
  have m: "?e0 \<in> set (resolver ?s)" by simp
  have e: "?t = (case disconnect ?s of Inl e \<Rightarrow> ?s | Inr t' \<Rightarrow> t')"
    unfolding d by simp
  from disconnect_discards [OF h1 h2, of openrgb, rule_format, OF e]
  have "\<forall>as u r p. run openrgb ?t as = Inr u \<and> r \<in> set (resolver ?s) \<longrightarrow>
          Fulfilled (resolveFn r) p \<notin> set (drop (length (events ?t)) (events u))"
    by blast
  with r m have "Fulfilled (resolveFn ?e0) [3, 0, 0, 0] \<notin>
      set (drop (length (events ?t)) (events ?u))"
    by blast
  then have "Fulfilled 0 [3, 0, 0, 0] \<notin> set (drop (length [Ended])
     [Ended,
      Written [0x4f, 0x52, 0x47, 0x42, 0, 0, 0, 0, 40, 0, 0, 0, 4, 0, 0, 0, 0, 0, 0, 0],
      Fulfilled 3 [3, 0, 0, 0]])"
    by (simp add: new_Client_def)
  with d r show ?thesis by blast
qed

section \<open>The codec: strings, flags and the mode round trip\<close>

lemma le_bytes_2: "le_bytes 2 v = [of_nat v, of_nat (v div 256)]"
proof -
  have e: "(2::nat) = Suc (Suc 0)" by simp
  show ?thesis by (subst e) simp
qed

text \<open>
  Claim C7. A buffer that holds, at \<open>offset\<close>, the 16-bit length \<open>n\<close>, then \<open>n - 1\<close>
  bytes of text and a terminator: \<open>readString\<close> returns the decoding of exactly those
  \<open>n - 1\<close> bytes and reports \<open>n + 2\<close> bytes. The instance below it is length 5 before
  the bytes of \<open>abcd\<close> and a zero: the text \<open>abcd\<close> and 7 bytes.
\<close>

theorem readString_decodes:
  assumes "n = length text + 1" and "n < 2 ^ 16"
  shows "readString decode (pre @ le_bytes 2 n @ text @ [0x00] @ post) (length pre) =
           Inr (decode text, n + 2)"
proof -
  let ?buf = "pre @ le_bytes 2 n @ text @ [0x00] @ post"
  have "slice_buf ?buf (length pre) (length pre + 2) = le_bytes 2 n"
    by (simp add: slice_buf_def)
  moreover from assms(2) have "le_nat (le_bytes 2 n) = n"
    by (intro le_nat_le_bytes) simp
  ultimately have len: "readUInt16LE ?buf (length pre) = Inr n"
    by (simp add: readUInt16LE_def)
  have "slice_buf ?buf (length pre + 2) (length pre + n + 1) = text"
    using assms(1) by (simp add: slice_buf_def)
  with len show ?thesis
    by (simp add: readString_def bind_err_def)
qed

theorem readString_decodes_witness:
  "(5::nat) = length [0x61, 0x62, 0x63, 0x64 :: byte] + 1 \<and> (5::nat) < 2 ^ 16 \<and>
   readString (map (\<lambda>b. char_of (unat b))) [5, 0, 0x61, 0x62, 0x63, 0x64, 0] 0 =
     Inr (''abcd'', 7)"
proof -
  have h1: "(5::nat) = length [0x61, 0x62, 0x63, 0x64 :: byte] + 1" by simp
  have h2: "(5::nat) < 2 ^ 16" by simp
  have h3: "map (\<lambda>b. char_of (unat b)) [0x61, 0x62, 0x63, 0x64 :: byte] = ''abcd''"
    by code_simp
  from readString_decodes [OF h1 h2, of "map (\<lambda>b. char_of (unat b))" "[]" "[]"]
  have "readString (map (\<lambda>b. char_of (unat b))) [5, 0, 0x61, 0x62, 0x63, 0x64, 0] 0 =
     Inr (map (\<lambda>b. char_of (unat b)) [0x61, 0x62, 0x63, 0x64 :: byte], 7)"
    by (simp add: le_bytes_2 del: list.map)
  with h1 h2 h3 show ?thesis by (simp del: list.map)
qed


lemmas codec_defs =
  readModes_def readMode_def readString_def readColor_def readUInt8_def readUInt16LE_def
  readUInt32LE_def readInt32LE_def bind_err_def slice_buf_def flagcheck_def flag_names_def
  pushed_flags_def flagged_def toString2.simps ascii_decode_def Let_def

text \<open>
  Claim C8. A mode record whose flags are 1024 (bit 10): the binary form has eleven
  digits, \<open>Array(10 - 11)\<close> throws and no mode is produced, where the claim expects an
  empty list of tags. A record whose flags are 1, with speed bounds 10 and 20,
  direction 3 and colour count 1, decodes to the tag list \<open>[speed]\<close>, the speed bounds
  as they are, direction 0 and no colours. Lemma \<open>flagcheck_throws\<close> below covers every
  flags value from 1024 on, \<open>readMode_at\<close> and \<open>capability_tags_bit\<close> every one below.
\<close>

theorem flags_beyond_ten_bits_throw:
  "readModes ascii_decode
     [2, 0, 0x61, 0,  0, 0, 0, 0,  0, 4, 0, 0,  10, 0, 0, 0,  20, 0, 0, 0,
      0, 0, 0, 0,  0, 0, 0, 0,  15, 0, 0, 0,  0, 0, 0, 0,  0, 0, 0, 0,  0, 0]
     1 0 0 = Inl InvalidArrayLength \<and>
   readModes ascii_decode
     [2, 0, 0x61, 0,  0, 0, 0, 0,  1, 0, 0, 0,  10, 0, 0, 0,  20, 0, 0, 0,
      0, 0, 0, 0,  0, 0, 0, 0,  15, 0, 0, 0,  3, 0, 0, 0,  0, 0, 0, 0,  1, 0,
      255, 0, 0, 0]
     1 0 0 =
     Inr ([\<lparr>modeId = 0, modeName = [0x61], modeValue = 0, modeFlags = 1,
            speedMin = 10, speedMax = 20, brightnessMin = None, brightnessMax = None,
            colorMin = 0, colorMax = 0, speed = 15, brightness = None, direction = 0,
            colorMode = 0, colors = [], flagList = [''speed'']\<rparr>], 42)"
  by (simp add: codec_defs)



lemma toString2_digits:
  "(k < length (toString2 n) \<longrightarrow>
      rev (toString2 n) ! k = (if bit n k then CHR ''1'' else CHR ''0'')) \<and>
   (length (toString2 n) \<le> k \<longrightarrow> \<not> bit n k)"
proof (induction n arbitrary: k rule: toString2.induct)
  case (1 n)
  show ?case
  proof (cases "n < 2")
    case True
    then have n: "n = 0 \<or> n = 1" by auto
    have s: "toString2 n = [if n = 0 then CHR ''0'' else CHR ''1'']"
      using True by (subst toString2.simps) simp
    from n show ?thesis
      by (cases k) (auto simp: s bit_Suc bit_0)
  next
    case False
    have s: "toString2 n = toString2 (n div 2) @ [if n mod 2 = 0 then CHR ''0'' else CHR ''1'']"
      using False by (subst toString2.simps) simp
    show ?thesis
    proof (cases k)
      case 0
      then show ?thesis by (auto simp: s bit_0 odd_iff_mod_2_eq_one)
    next
      case (Suc j)
      with "1.IH" [OF False, of j] show ?thesis
        by (simp add: s bit_Suc)
    qed
  qed
qed

lemma length_toString2: "0 < k \<Longrightarrow> length (toString2 n) \<le> k \<longleftrightarrow> n < 2 ^ k"
proof (induction n arbitrary: k rule: toString2.induct)
  case (1 n)
  show ?case
  proof (cases "n < 2")
    case True
    have s: "toString2 n = [if n = 0 then CHR ''0'' else CHR ''1'']"
      using True by (subst toString2.simps) simp
    from "1.prems" have "(2::nat) ^ 1 \<le> 2 ^ k"
      by (intro power_increasing) auto
    with True have "n < 2 ^ k" by simp
    with "1.prems" s show ?thesis by simp
  next
    case False
    have s: "toString2 n = toString2 (n div 2) @ [if n mod 2 = 0 then CHR ''0'' else CHR ''1'']"
      using False by (subst toString2.simps) simp
    from "1.prems" obtain j where k: "k = Suc j" by (cases k) auto
    show ?thesis
    proof (cases "j = 0")
      case True
      with k False s show ?thesis
        using length_greater_0_conv [of "toString2 (n div 2)"]
        by (subst (asm) toString2.simps [of "n div 2"]) (auto split: if_splits)
    next
      case j: False
      with "1.IH" [OF False, of j] have "length (toString2 (n div 2)) \<le> j \<longleftrightarrow> n div 2 < 2 ^ j"
        by simp
      moreover have "n div 2 < 2 ^ j \<longleftrightarrow> n < 2 ^ Suc j"
        by (simp add: less_mult_imp_div_less div_less_iff_less_mult mult.commute)
      ultimately show ?thesis by (simp add: s k)
    qed
  qed
qed


lemma zip_nth_map:
  "length xs = length ys \<Longrightarrow> zip xs ys = map (\<lambda>k. (xs ! k, ys ! k)) [0..<length xs]"
  by (rule nth_equalityI) auto

lemma flagcheck_throws:
  assumes "2 ^ 10 \<le> fl"
  shows "flagcheck fl = Inl InvalidArrayLength"
proof -
  from assms length_toString2 [of 10 fl] have "10 < length (toString2 fl)" by simp
  then show ?thesis by (simp add: flagcheck_def flag_names_def Let_def)
qed

lemma flagcheck_bits:
  assumes "fl < 2 ^ 10"
  shows "\<exists>fc. flagcheck fl = Inr fc \<and> (\<forall>k<10. flagged fc k \<longleftrightarrow> bit fl k) \<and>
              pushed_flags fc = capability_tags fl"
proof -
  let ?str = "toString2 fl"
  let ?fc = "map Some (rev ?str) @ replicate (10 - length ?str) None"
  from assms length_toString2 [of 10 fl] have len: "length ?str \<le> 10" by simp
  then have fc: "flagcheck fl = Inr ?fc"
    by (simp add: flagcheck_def flag_names_def Let_def rev_map)
  from len have l10: "length ?fc = 10" by simp
  have nth: "?fc ! k = Some CHR ''1'' \<longleftrightarrow> bit fl k" if "k < 10" for k
  proof (cases "k < length ?str")
    case True
    with toString2_digits [of k fl] show ?thesis
      by (simp add: nth_append)
  next
    case False
    with toString2_digits [of k fl] that show ?thesis
      by (simp add: nth_append)
  qed
  with l10 have fl: "\<forall>k<10. flagged ?fc k \<longleftrightarrow> bit fl k"
    by (simp add: flagged_def)
  have lf: "length flag_names = 10" by (simp add: flag_names_def)
  with l10 have "zip ?fc flag_names = map (\<lambda>k. (?fc ! k, flag_names ! k)) [0..<10]"
    using zip_nth_map [of ?fc flag_names] by simp
  then have "pushed_flags ?fc =
      map (\<lambda>k. flag_names ! k) (filter (\<lambda>k. ?fc ! k = Some CHR ''1'') [0..<10])"
    by (simp add: pushed_flags_def filter_map comp_def)
  also have "filter (\<lambda>k. ?fc ! k = Some CHR ''1'') [0..<10] = filter (bit fl) [0..<10]"
    by (rule filter_cong) (auto simp: nth)
  finally have "pushed_flags ?fc = capability_tags fl"
    by (simp add: capability_tags_def lf)
  with fc fl show ?thesis by blast
qed


lemma skip32: "length a \<le> off \<Longrightarrow> readUInt32LE (a @ rest) off = readUInt32LE rest (off - length a)"
  by (auto simp: readUInt32LE_def slice_buf_def)

lemma skip32_Cons: "0 < off \<Longrightarrow> readUInt32LE (x # rest) off = readUInt32LE rest (off - 1)"
  using skip32 [of "[x]" off rest] by simp

lemma skipI32: "length a \<le> off \<Longrightarrow> readInt32LE (a @ rest) off = readInt32LE rest (off - length a)"
  by (auto simp: readInt32LE_def slice_buf_def)

lemma skipI32_Cons: "0 < off \<Longrightarrow> readInt32LE (x # rest) off = readInt32LE rest (off - 1)"
  using skipI32 [of "[x]" off rest] by simp

lemma skip16: "length a \<le> off \<Longrightarrow> readUInt16LE (a @ rest) off = readUInt16LE rest (off - length a)"
  by (auto simp: readUInt16LE_def slice_buf_def)

lemma skip16_Cons: "0 < off \<Longrightarrow> readUInt16LE (x # rest) off = readUInt16LE rest (off - 1)"
  using skip16 [of "[x]" off rest] by simp

lemma here32: "x < 2 ^ 32 \<Longrightarrow> readUInt32LE (le_bytes 4 x @ rest) 0 = Inr x"
  using le_nat_le_bytes [of x 4] by (simp add: readUInt32LE_def slice_buf_def)

lemma hereI32: "0 \<le> v \<Longrightarrow> v < 2 ^ 31 \<Longrightarrow> readInt32LE (le_bytes 4 (nat v) @ rest) 0 = Inr v"
  using le_nat_le_bytes [of "nat v" 4] by (simp add: readInt32LE_def slice_buf_def Let_def)

lemma here16: "x < 2 ^ 16 \<Longrightarrow> readUInt16LE (le_bytes 2 x @ rest) 0 = Inr x"
  using le_nat_le_bytes [of x 2] by (simp add: readUInt16LE_def slice_buf_def)

lemmas peel = skip32 skip32_Cons skipI32 skipI32_Cons skip16 skip16_Cons here32 hereI32 here16

lemma pack_I_nat: "x < 2 ^ 32 \<Longrightarrow> pack_I (Some (int x)) = le_bytes 4 x"
  by (simp add: pack_I_def min_def max_def)

lemma pack_I_int: "0 \<le> v \<Longrightarrow> v < 2 ^ 31 \<Longrightarrow> pack_I (Some v) = le_bytes 4 (nat v)"
  by (simp add: pack_I_def min_def max_def)

lemma pack_H_nat: "x < 2 ^ 16 \<Longrightarrow> pack_H x = le_bytes 2 x"
  by (simp add: pack_H_def min_def)


lemma readMode_at:
  assumes "3 \<le> v"
    and "readString decode buf off = Inr (nm, nl)"
    and "readInt32LE buf (off + nl) = Inr val"
    and "readUInt32LE buf (off + nl + 4) = Inr fl"
    and "readUInt32LE buf (8 + (off + nl)) = Inr smin"
    and "readUInt32LE buf (12 + (off + nl)) = Inr smax"
    and "readUInt32LE buf (16 + (off + nl)) = Inr bmin"
    and "readUInt32LE buf (20 + (off + nl)) = Inr bmax"
    and "readUInt32LE buf (24 + (off + nl)) = Inr cmin"
    and "readUInt32LE buf (28 + (off + nl)) = Inr cmax"
    and "readUInt32LE buf (32 + (off + nl)) = Inr sp"
    and "readUInt32LE buf (36 + (off + nl)) = Inr br"
    and "readUInt32LE buf (40 + (off + nl)) = Inr dir"
    and "readUInt32LE buf (44 + (off + nl)) = Inr cm"
    and "readUInt16LE buf (48 + (off + nl)) = Inr cl"
    and "fl < 2 ^ 10"
    and "readColors buf
           (if (\<not> bit fl 5 \<and> \<not> bit fl 6 \<and> \<not> bit fl 7) \<or> cl = 0 then 0 else cl)
           (50 + (off + nl)) = Inr (cs, off')"
  shows "readMode decode buf v idx off =
           Inr (\<lparr>modeId = idx, modeName = nm, modeValue = val, modeFlags = fl,
                 speedMin = (if bit fl 0 then smin else 0),
                 speedMax = (if bit fl 0 then smax else 0),
                 brightnessMin = Some (if bit fl 4 then bmin else 0),
                 brightnessMax = Some (if bit fl 4 then bmax else 0),
                 colorMin = (if (\<not> bit fl 5 \<and> \<not> bit fl 6 \<and> \<not> bit fl 7) \<or> cl = 0
                             then 0 else cmin),
                 colorMax = (if (\<not> bit fl 5 \<and> \<not> bit fl 6 \<and> \<not> bit fl 7) \<or> cl = 0
                             then 0 else cmax),
                 speed = (if bit fl 0 then sp else 0),
                 brightness = Some (if bit fl 4 then br else 0),
                 direction = (if bit fl 1 \<or> bit fl 2 \<or> bit fl 3 then dir else 0),
                 colorMode = cm,
                 colors = cs,
                 flagList = capability_tags fl @
                   (if bit fl 1 \<or> bit fl 2 \<or> bit fl 3 then [''direction''] else [])\<rparr>, off')"
proof -
  from flagcheck_bits [OF \<open>fl < 2 ^ 10\<close>] obtain fc where
    fc: "flagcheck fl = Inr fc" and bits: "\<forall>k<10. flagged fc k \<longleftrightarrow> bit fl k"
    and tags: "pushed_flags fc = capability_tags fl" by blast
  from bits have b: "flagged fc 0 = bit fl 0" "flagged fc (Suc 0) = bit fl (Suc 0)"
    "flagged fc 2 = bit fl 2"
    "flagged fc 3 = bit fl 3" "flagged fc 4 = bit fl 4" "flagged fc 5 = bit fl 5"
    "flagged fc 6 = bit fl 6" "flagged fc 7 = bit fl 7" by simp_all
  from assms fc show ?thesis
    unfolding readMode_def Let_def
    by (simp add: bind_err_def b tags)
qed


lemma length_pack_I [simp]: "length (pack_I x) = 4"
  by (simp add: pack_I_def split: option.splits)

lemma skip8: "length a \<le> off \<Longrightarrow> readUInt8 (a @ rest) off = readUInt8 rest (off - length a)"
  by (auto simp: readUInt8_def slice_buf_def)

lemma unat_pack_B: "x < 2 ^ 8 \<Longrightarrow> unat (pack_B x) = x"
  by (simp add: pack_B_def min_def unat_of_nat)

lemma readColor_packed:
  assumes "red c < 2 ^ 8" "green c < 2 ^ 8" "blue c < 2 ^ 8"
  shows "readColor (pre @ [pack_B (red c), pack_B (green c), pack_B (blue c), 0] @ post) (length pre) = Inr c"
proof -
  have "readUInt8 (pre @ [pack_B (red c), pack_B (green c), pack_B (blue c), 0] @ post) (length pre)
      = Inr (red c)"
    using assms by (simp add: skip8) (simp add: readUInt8_def slice_buf_def unat_pack_B)
  moreover
  have "readUInt8 (pre @ [pack_B (red c), pack_B (green c), pack_B (blue c), 0] @ post) (length pre + 1)
      = Inr (green c)"
    using assms by (simp add: skip8) (simp add: readUInt8_def slice_buf_def unat_pack_B)
  moreover
  have "readUInt8 (pre @ [pack_B (red c), pack_B (green c), pack_B (blue c), 0] @ post) (length pre + 2)
      = Inr (blue c)"
    using assms by (simp add: skip8) (simp add: readUInt8_def slice_buf_def unat_pack_B)
  ultimately show ?thesis
    by (simp add: readColor_def bind_err_def)
qed

lemma readColors_packed:
  assumes "list_all (\<lambda>c. red c < 2 ^ 8 \<and> green c < 2 ^ 8 \<and> blue c < 2 ^ 8) cs"
  shows "readColors
           (pre @ concat (map (\<lambda>e. [pack_B (red e), pack_B (green e), pack_B (blue e), 0x00]) cs) @ post)
           (length cs) (length pre) = Inr (cs, length pre + 4 * length cs)"
  using assms
proof (induction cs arbitrary: pre)
  case Nil
  then show ?case by simp
next
  case (Cons c cs)
  let ?cb = "[pack_B (red c), pack_B (green c), pack_B (blue c), 0x00]"
  let ?rest = "concat (map (\<lambda>e. [pack_B (red e), pack_B (green e), pack_B (blue e), 0x00]) cs)"
  from Cons.prems have c: "red c < 2 ^ 8" "green c < 2 ^ 8" "blue c < 2 ^ 8"
    and cs: "list_all (\<lambda>c. red c < 2 ^ 8 \<and> green c < 2 ^ 8 \<and> blue c < 2 ^ 8) cs" by simp_all
  have a: "readColor (pre @ ?cb @ (?rest @ post)) (length pre) = Inr c"
    by (rule readColor_packed [OF c])
  have len: "length (pre @ ?cb) = length pre + 4" by simp
  have eq: "(pre @ ?cb) @ ?rest @ post = pre @ ?cb @ (?rest @ post)" by simp
  from Cons.IH [OF cs, of "pre @ ?cb"]
  have b: "readColors (pre @ ?cb @ (?rest @ post)) (length cs) (length pre + 4) =
      Inr (cs, length pre + 4 + 4 * length cs)" by (simp only: len eq)
  have buf: "pre @ concat (map (\<lambda>e. [pack_B (red e), pack_B (green e), pack_B (blue e), 0x00]) (c # cs)) @ post
      = pre @ ?cb @ (?rest @ post)" by simp
  show ?case unfolding buf using a b
    by (simp add: bind_err_def del: append.simps append_assoc)
qed


lemma length_color_bytes:
  "length (concat (map (\<lambda>e. [pack_B (red e), pack_B (green e), pack_B (blue e), 0x00]) cs)) =
     4 * length cs"
  by (induction cs) auto

text \<open>
  Claim C9, amended. A mode within the wire ranges and as the decoder leaves a mode,
  encoded by \<open>sendMode\<close> at a protocol version of 3 or more: decoding the record that
  starts at offset 8 of the payload, behind the length and the id, gives back every
  field, the three brightness fields included; the id is the record's index 0, which
  the decoder assigns and does not read. The whole payload is consumed.
\<close>

theorem mode_roundtrip:
  assumes v: "3 \<le> v" and w: "wire_mode decode m" and s: "settled m"
  shows "readModes decode (mode_payload (Some v) m) 1 8 v =
           Inr ([m\<lparr>modeId := 0\<rparr>], length (mode_payload (Some v) m))"
proof -
  let ?nm = "modeName m" and ?cs = "colors m" and ?fl = "modeFlags m"
  let ?CC = "concat (map (\<lambda>e. [pack_B (red e), pack_B (green e), pack_B (blue e), 0x00]) ?cs)"
  from w obtain bmin bmax br where
    bm: "brightnessMin m = Some bmin" "brightnessMax m = Some bmax" "brightness m = Some br"
      "bmin < 2 ^ 32" "bmax < 2 ^ 32" "br < 2 ^ 32"
    by (auto simp: wire_mode_def split: option.splits)
  from w have rng: "length ?nm + 1 < 2 ^ 16" "0 \<le> modeValue m" "modeValue m < 2 ^ 31"
    "?fl < 2 ^ 10" "speedMin m < 2 ^ 32" "speedMax m < 2 ^ 32" "colorMin m < 2 ^ 32"
    "colorMax m < 2 ^ 32" "speed m < 2 ^ 32" "direction m < 2 ^ 32" "colorMode m < 2 ^ 32"
    "length ?cs < 2 ^ 16"
    and dec: "decode (map ucast ?nm) = ?nm"
    and cols: "list_all (\<lambda>c. red c < 2 ^ 8 \<and> green c < 2 ^ 8 \<and> blue c < 2 ^ 8) ?cs"
    by (simp_all add: wire_mode_def pack_s_def)
  from rng(4) have fl32: "?fl < 2 ^ 32" by simp
  define b where "b = mode_payload (Some v) m"
  define a where "a = take 4 b"
  let ?pre = "a @ pack_I (Some (int (modeId m))) @ le_bytes 2 (length ?nm + 1) @ map ucast ?nm @
      [0x00] @ le_bytes 4 (nat (modeValue m)) @ le_bytes 4 ?fl @ le_bytes 4 (speedMin m) @
      le_bytes 4 (speedMax m) @ le_bytes 4 bmin @ le_bytes 4 bmax @ le_bytes 4 (colorMin m) @
      le_bytes 4 (colorMax m) @ le_bytes 4 (speed m) @ le_bytes 4 br @ le_bytes 4 (direction m) @
      le_bytes 4 (colorMode m) @ le_bytes 2 (length ?cs)"
  have buf': "b = ?pre @ ?CC @ []"
    unfolding a_def b_def using v rng bm fl32
    by (simp add: mode_payload_def Let_def pack_string_def pack_s_def pack_color_list_def
        pack_I_nat pack_I_int pack_H_nat)
  then have buf: "b = a @ pack_I (Some (int (modeId m))) @ le_bytes 2 (length ?nm + 1) @
      map ucast ?nm @
      [0x00] @ le_bytes 4 (nat (modeValue m)) @ le_bytes 4 ?fl @ le_bytes 4 (speedMin m) @
      le_bytes 4 (speedMax m) @ le_bytes 4 bmin @ le_bytes 4 bmax @ le_bytes 4 (colorMin m) @
      le_bytes 4 (colorMax m) @ le_bytes 4 (speed m) @ le_bytes 4 br @ le_bytes 4 (direction m) @
      le_bytes 4 (colorMode m) @ le_bytes 2 (length ?cs) @ ?CC"
    by simp
  have la: "length a = 4"
    unfolding a_def b_def by (simp add: mode_payload_def Let_def)
  have lpre: "length ?pre = 50 + (8 + (length ?nm + 1 + 2))"
    by (simp add: la)
  have lb: "length b = 50 + (8 + (length ?nm + 1 + 2)) + 4 * length ?cs"
    by (subst buf') (simp add: la length_color_bytes)
  have "readUInt16LE b 8 = Inr (length ?nm + 1)"
    using rng by (simp add: buf peel la)
  moreover have "slice_buf b (8 + 2) (8 + (length ?nm + 1) + 1) = map ucast ?nm"
    by (simp add: buf slice_buf_def la)
  ultimately have f0: "readString decode b 8 = Inr (?nm, length ?nm + 1 + 2)"
    by (simp add: readString_def bind_err_def dec)
  have f1: "readInt32LE b (8 + (length ?nm + 1 + 2)) = Inr (modeValue m)"
    using rng by (simp add: buf peel la)
  have f2: "readUInt32LE b (8 + (length ?nm + 1 + 2) + 4) = Inr ?fl"
    using fl32 by (simp add: buf peel la)
  have r8: "readUInt32LE b (8 + (8 + (length ?nm + 1 + 2))) = Inr (speedMin m)"
    using rng bm by (simp add: buf peel la)
  have r12: "readUInt32LE b (12 + (8 + (length ?nm + 1 + 2))) = Inr (speedMax m)"
    using rng bm by (simp add: buf peel la)
  have r16: "readUInt32LE b (16 + (8 + (length ?nm + 1 + 2))) = Inr (bmin)"
    using rng bm by (simp add: buf peel la)
  have r20: "readUInt32LE b (20 + (8 + (length ?nm + 1 + 2))) = Inr (bmax)"
    using rng bm by (simp add: buf peel la)
  have r24: "readUInt32LE b (24 + (8 + (length ?nm + 1 + 2))) = Inr (colorMin m)"
    using rng bm by (simp add: buf peel la)
  have r28: "readUInt32LE b (28 + (8 + (length ?nm + 1 + 2))) = Inr (colorMax m)"
    using rng bm by (simp add: buf peel la)
  have r32: "readUInt32LE b (32 + (8 + (length ?nm + 1 + 2))) = Inr (speed m)"
    using rng bm by (simp add: buf peel la)
  have r36: "readUInt32LE b (36 + (8 + (length ?nm + 1 + 2))) = Inr (br)"
    using rng bm by (simp add: buf peel la)
  have r40: "readUInt32LE b (40 + (8 + (length ?nm + 1 + 2))) = Inr (direction m)"
    using rng bm by (simp add: buf peel la)
  have r44: "readUInt32LE b (44 + (8 + (length ?nm + 1 + 2))) = Inr (colorMode m)"
    using rng bm by (simp add: buf peel la)
  have fcl: "readUInt16LE b (48 + (8 + (length ?nm + 1 + 2))) = Inr (length ?cs)"
    using rng by (simp add: buf peel la)
  from s have cnt:
    "(if (\<not> bit ?fl 5 \<and> \<not> bit ?fl 6 \<and> \<not> bit ?fl 7) \<or> length ?cs = 0 then 0 else length ?cs)
       = length ?cs"
    by (auto simp: settled_def Let_def)
  from readColors_packed [OF cols, of ?pre "[]"]
  have "readColors b (length ?cs) (50 + (8 + (length ?nm + 1 + 2))) = Inr (?cs, length b)"
    by (simp only: buf' [symmetric] lpre lb)
  with cnt have fcs:
    "readColors b
       (if (\<not> bit ?fl 5 \<and> \<not> bit ?fl 6 \<and> \<not> bit ?fl 7) \<or> length ?cs = 0 then 0 else length ?cs)
       (50 + (8 + (length ?nm + 1 + 2))) = Inr (?cs, length b)"
    by simp
  note rm = readMode_at [OF v f0 f1 f2 r8 r12 r16 r20 r24 r28 r32 r36 r40 r44 fcl rng(4) fcs, of 0]
  have "\<lparr>modeId = 0, modeName = ?nm, modeValue = modeValue m, modeFlags = ?fl,
          speedMin = (if bit ?fl 0 then speedMin m else 0),
          speedMax = (if bit ?fl 0 then speedMax m else 0),
          brightnessMin = Some (if bit ?fl 4 then bmin else 0),
          brightnessMax = Some (if bit ?fl 4 then bmax else 0),
          colorMin = (if (\<not> bit ?fl 5 \<and> \<not> bit ?fl 6 \<and> \<not> bit ?fl 7) \<or> length ?cs = 0
                      then 0 else colorMin m),
          colorMax = (if (\<not> bit ?fl 5 \<and> \<not> bit ?fl 6 \<and> \<not> bit ?fl 7) \<or> length ?cs = 0
                      then 0 else colorMax m),
          speed = (if bit ?fl 0 then speed m else 0),
          brightness = Some (if bit ?fl 4 then br else 0),
          direction = (if bit ?fl 1 \<or> bit ?fl 2 \<or> bit ?fl 3 then direction m else 0),
          colorMode = colorMode m,
          colors = ?cs,
          flagList = capability_tags ?fl @
            (if bit ?fl 1 \<or> bit ?fl 2 \<or> bit ?fl 3 then [''direction''] else [])\<rparr>
        = m\<lparr>modeId := 0\<rparr>"
    using s bm by (intro Mode.equality) (auto simp: settled_def Let_def)
  with rm have "readMode decode b v 0 8 = Inr (m\<lparr>modeId := 0\<rparr>, length b)" by simp
  then show ?thesis
    unfolding b_def [symmetric] by (simp add: readModes_def bind_err_def)
qed


lemma distinct_flag_names: "distinct flag_names \<and> length flag_names = 10"
  by (simp add: flag_names_def)

lemma capability_tags_bit:
  assumes "k < 10"
  shows "flag_names ! k \<in> set (capability_tags fl) \<longleftrightarrow> bit fl k"
proof -
  from distinct_flag_names have d: "distinct flag_names" and l: "length flag_names = 10"
    by simp_all
  have "flag_names ! k \<in> set (capability_tags fl) \<longleftrightarrow>
        (\<exists>j<10. bit fl j \<and> flag_names ! j = flag_names ! k)"
    by (simp add: capability_tags_def l image_iff) metis
  also have "\<dots> \<longleftrightarrow> bit fl k"
    using assms d l by (auto simp: nth_eq_iff_index_eq)
  finally show ?thesis .
qed

lemmas payload_defs =
  mode_payload_def pack_string_def pack_s_def pack_color_list_def pack_I_def pack_H_def
  pack_B_def le_bytes_4 le_bytes_2

text \<open>
  Claim C9, as stated, fails: a mode without the speed capability (flags 0) that
  carries speed 7, as \<open>sendMode\<close> builds it from a caller's \<open>{id: 0, speed: 7}\<close>, is
  encoded with speed 7 and decoded with speed 0.
\<close>

theorem mode_roundtrip_counterexample:
  "readModes ascii_decode
     (mode_payload (Some 3)
        \<lparr>modeId = 0, modeName = [0x61], modeValue = 0, modeFlags = 0,
         speedMin = 0, speedMax = 0, brightnessMin = Some 0, brightnessMax = Some 0,
         colorMin = 0, colorMax = 0, speed = 7, brightness = Some 0, direction = 0,
         colorMode = 0, colors = [], flagList = []\<rparr>) 1 8 3 =
     Inr ([\<lparr>modeId = 0, modeName = [0x61], modeValue = 0, modeFlags = 0,
            speedMin = 0, speedMax = 0, brightnessMin = Some 0, brightnessMax = Some 0,
            colorMin = 0, colorMax = 0, speed = 0, brightness = Some 0, direction = 0,
            colorMode = 0, colors = [], flagList = []\<rparr>], 62)"
  by (simp add: payload_defs codec_defs)


theorem mode_roundtrip_witness:
  "(3::int) \<le> 3 \<and>
   wire_mode ascii_decode
     \<lparr>modeId = 0, modeName = [0x61], modeValue = 2, modeFlags = 49,
         speedMin = 1, speedMax = 9, brightnessMin = Some 0, brightnessMax = Some 100,
         colorMin = 1, colorMax = 2, speed = 4, brightness = Some 50, direction = 0,
         colorMode = 1, colors = [\<lparr>red = 255, green = 0, blue = 0\<rparr>],
         flagList = [''speed'', ''brightness'', ''perLedColor'']\<rparr> \<and>
   settled
     \<lparr>modeId = 0, modeName = [0x61], modeValue = 2, modeFlags = 49,
         speedMin = 1, speedMax = 9, brightnessMin = Some 0, brightnessMax = Some 100,
         colorMin = 1, colorMax = 2, speed = 4, brightness = Some 50, direction = 0,
         colorMode = 1, colors = [\<lparr>red = 255, green = 0, blue = 0\<rparr>],
         flagList = [''speed'', ''brightness'', ''perLedColor'']\<rparr> \<and>
   readModes ascii_decode
     (mode_payload (Some 3)
        \<lparr>modeId = 0, modeName = [0x61], modeValue = 2, modeFlags = 49,
         speedMin = 1, speedMax = 9, brightnessMin = Some 0, brightnessMax = Some 100,
         colorMin = 1, colorMax = 2, speed = 4, brightness = Some 50, direction = 0,
         colorMode = 1, colors = [\<lparr>red = 255, green = 0, blue = 0\<rparr>],
         flagList = [''speed'', ''brightness'', ''perLedColor'']\<rparr>) 1 8 3 =
     Inr ([\<lparr>modeId = 0, modeName = [0x61], modeValue = 2, modeFlags = 49,
         speedMin = 1, speedMax = 9, brightnessMin = Some 0, brightnessMax = Some 100,
         colorMin = 1, colorMax = 2, speed = 4, brightness = Some 50, direction = 0,
         colorMode = 1, colors = [\<lparr>red = 255, green = 0, blue = 0\<rparr>],
         flagList = [''speed'', ''brightness'', ''perLedColor'']\<rparr>], 66)"
proof -
  let ?m = "\<lparr>modeId = 0, modeName = [0x61], modeValue = 2, modeFlags = 49,
         speedMin = 1, speedMax = 9, brightnessMin = Some 0, brightnessMax = Some 100,
         colorMin = 1, colorMax = 2, speed = 4, brightness = Some 50, direction = 0,
         colorMode = 1, colors = [\<lparr>red = 255, green = 0, blue = 0\<rparr>],
         flagList = [''speed'', ''brightness'', ''perLedColor'']\<rparr>"
  have h1: "(3::int) \<le> 3" by simp
  have h2: "wire_mode ascii_decode ?m"
    by (simp add: wire_mode_def ascii_decode_def pack_s_def)
  have c: "capability_tags 49 = [''speed'', ''brightness'', ''perLedColor'']"
    by code_simp
  have b: "bit (49::nat) 0" "\<not> bit (49::nat) 1" "\<not> bit (49::nat) 2" "\<not> bit (49::nat) 3"
    "bit (49::nat) 4" "bit (49::nat) 5"
    by (simp_all add: bit_iff_odd)
  have h3: "settled ?m"
    by (simp add: settled_def Let_def c b bit_0)
  have l: "length (mode_payload (Some 3) ?m) = 66"
    by (simp add: payload_defs)
  from mode_roundtrip [OF h1 h2 h3] h2 h3 show ?thesis
    by (simp only: l) simp
qed

end
